theory Spec2Isabelle
  imports Complex_Main "HOL-Library.Word"
begin

section \<open>float64 values\<close>

text \<open>
  The arrays of \<^verbatim>\<open>ws2dwcvp.py\<close> hold float64 values. A value is a finite number, one of the
  two infinities or NaN. The special values follow IEEE 754 as numpy applies them
  (\<^verbatim>\<open>0 * nan\<close> is \<^verbatim>\<open>nan\<close>, \<^verbatim>\<open>0 / 0\<close> is \<^verbatim>\<open>nan\<close>, every comparison with \<^verbatim>\<open>nan\<close> is false except
  \<^verbatim>\<open>!=\<close>). On finite operands the result is the exact real result: rounding, overflow to an
  infinity and the sign of zero are not modelled.
\<close>

datatype float64 = Fin real | PInf | NInf | NaN

fun isnan :: "float64 \<Rightarrow> bool" where
  "isnan NaN = True"
| "isnan _ = False"

fun isinf :: "float64 \<Rightarrow> bool" where
  "isinf PInf = True"
| "isinf NInf = True"
| "isinf _ = False"

fun isfinite :: "float64 \<Rightarrow> bool" where
  "isfinite (Fin _) = True"
| "isfinite _ = False"

text \<open>The infinity with the sign of a real; NaN for zero (\<^verbatim>\<open>0 * inf\<close>, \<^verbatim>\<open>0 / 0\<close>).\<close>

definition inf_of_sign :: "real \<Rightarrow> float64" where
  "inf_of_sign s = (if s = 0 then NaN else if 0 < s then PInf else NInf)"

fun fneg :: "float64 \<Rightarrow> float64" where
  "fneg (Fin a) = Fin (- a)"
| "fneg PInf = NInf"
| "fneg NInf = PInf"
| "fneg NaN = NaN"

fun fadd :: "float64 \<Rightarrow> float64 \<Rightarrow> float64" where
  "fadd NaN _ = NaN"
| "fadd _ NaN = NaN"
| "fadd (Fin a) (Fin b) = Fin (a + b)"
| "fadd PInf NInf = NaN"
| "fadd NInf PInf = NaN"
| "fadd PInf _ = PInf"
| "fadd NInf _ = NInf"
| "fadd (Fin _) PInf = PInf"
| "fadd (Fin _) NInf = NInf"

definition fsub :: "float64 \<Rightarrow> float64 \<Rightarrow> float64" where
  "fsub x y = fadd x (fneg y)"

fun fmul :: "float64 \<Rightarrow> float64 \<Rightarrow> float64" where
  "fmul NaN _ = NaN"
| "fmul _ NaN = NaN"
| "fmul (Fin a) (Fin b) = Fin (a * b)"
| "fmul (Fin a) PInf = inf_of_sign a"
| "fmul (Fin a) NInf = inf_of_sign (- a)"
| "fmul PInf (Fin b) = inf_of_sign b"
| "fmul NInf (Fin b) = inf_of_sign (- b)"
| "fmul PInf PInf = PInf"
| "fmul PInf NInf = NInf"
| "fmul NInf PInf = NInf"
| "fmul NInf NInf = PInf"

text \<open>A zero divisor counts as \<^verbatim>\<open>+0.0\<close>.\<close>

fun fdiv :: "float64 \<Rightarrow> float64 \<Rightarrow> float64" where
  "fdiv NaN _ = NaN"
| "fdiv _ NaN = NaN"
| "fdiv (Fin a) (Fin b) = (if b = 0 then inf_of_sign a else Fin (a / b))"
| "fdiv (Fin _) PInf = Fin 0"
| "fdiv (Fin _) NInf = Fin 0"
| "fdiv PInf (Fin b) = (if 0 \<le> b then PInf else NInf)"
| "fdiv NInf (Fin b) = (if 0 \<le> b then NInf else PInf)"
| "fdiv PInf _ = NaN"
| "fdiv NInf _ = NaN"

fun fabs :: "float64 \<Rightarrow> float64" where
  "fabs (Fin a) = Fin \<bar>a\<bar>"
| "fabs PInf = PInf"
| "fabs NInf = PInf"
| "fabs NaN = NaN"

text \<open>\<^verbatim>\<open>x < y\<close>, \<^verbatim>\<open>x > y\<close>, \<^verbatim>\<open>x == y\<close>, \<^verbatim>\<open>x != y\<close> and \<^verbatim>\<open>x <= y\<close>.\<close>

fun flt :: "float64 \<Rightarrow> float64 \<Rightarrow> bool" where
  "flt NaN _ = False"
| "flt _ NaN = False"
| "flt (Fin a) (Fin b) = (a < b)"
| "flt _ NInf = False"
| "flt PInf _ = False"
| "flt NInf _ = True"
| "flt (Fin _) PInf = True"

definition fgt :: "float64 \<Rightarrow> float64 \<Rightarrow> bool" where
  "fgt x y = flt y x"

definition feq :: "float64 \<Rightarrow> float64 \<Rightarrow> bool" where
  "feq x y = (\<not> isnan x \<and> x = y)"

definition fne :: "float64 \<Rightarrow> float64 \<Rightarrow> bool" where
  "fne x y = (\<not> feq x y)"

definition fle :: "float64 \<Rightarrow> float64 \<Rightarrow> bool" where
  "fle x y = (flt x y \<or> feq x y)"

text \<open>Truth value of a float in \<^verbatim>\<open>if not x\<close>: only zero is false (NaN is true).\<close>

definition truthy :: "float64 \<Rightarrow> bool" where
  "truthy x = fne x (Fin 0)"

text \<open>\<^verbatim>\<open>x ** 2\<close>, \<^verbatim>\<open>x ** 0.5\<close>, \<^verbatim>\<open>numpy.sqrt(x)\<close>, \<^verbatim>\<open>numpy.cos(x)\<close> and \<^verbatim>\<open>10 ** x\<close>.\<close>

definition fpow2 :: "float64 \<Rightarrow> float64" where
  "fpow2 x = fmul x x"

fun fpow_half :: "float64 \<Rightarrow> float64" where
  "fpow_half (Fin a) = (if a < 0 then NaN else Fin (sqrt a))"
| "fpow_half PInf = PInf"
| "fpow_half NInf = PInf"
| "fpow_half NaN = NaN"

fun fsqrt :: "float64 \<Rightarrow> float64" where
  "fsqrt (Fin a) = (if a < 0 then NaN else Fin (sqrt a))"
| "fsqrt PInf = PInf"
| "fsqrt NInf = NaN"
| "fsqrt NaN = NaN"

fun fcos :: "float64 \<Rightarrow> float64" where
  "fcos (Fin a) = Fin (cos a)"
| "fcos _ = NaN"

fun pow10 :: "float64 \<Rightarrow> float64" where
  "pow10 (Fin a) = Fin (10 powr a)"
| "pow10 PInf = PInf"
| "pow10 NInf = Fin 0"
| "pow10 NaN = NaN"

text \<open>\<^verbatim>\<open>numpy.round_(x, 0)\<close>: to the nearest integer, a tie to the even one.\<close>

definition rint :: "real \<Rightarrow> int" where
  "rint x = (let f = \<lfloor>x\<rfloor>; d = x - of_int f
             in if d < 1 / 2 then f
                else if 1 / 2 < d then f + 1
                else if even f then f else f + 1)"

fun fround :: "float64 \<Rightarrow> float64" where
  "fround (Fin a) = Fin (of_int (rint a))"
| "fround x = x"

text \<open>
  Storing a float64 into the \<^verbatim>\<open>int16[:]\<close> output array converts it: the fraction is cut off
  (towards zero). \<open>None\<close> stands for a conversion of NaN, an infinity or a value outside
  \<open>-32768..32767\<close>, whose result the compiled code leaves undefined.
\<close>

type_synonym int16 = "16 word"

definition trunc0 :: "real \<Rightarrow> int" where
  "trunc0 x = (if 0 \<le> x then \<lfloor>x\<rfloor> else \<lceil>x\<rceil>)"

fun to_int16 :: "float64 \<Rightarrow> int16 option" where
  "to_int16 (Fin a) =
     (let t = trunc0 a in if - 32768 \<le> t \<and> t \<le> 32767 then Some (word_of_int t) else None)"
| "to_int16 _ = None"

text \<open>The number an output cell holds, read back as a float64.\<close>

definition of_int16 :: "int16 \<Rightarrow> float64" where
  "of_int16 v = Fin (of_int (sint v))"

subsection \<open>Arrays\<close>

type_synonym farray = "float64 list"

definition fsum :: "farray \<Rightarrow> float64" where
  "fsum xs = foldl fadd (Fin 0) xs"

text \<open>Sorting of NaN-free values, for \<^verbatim>\<open>numpy.median\<close>.\<close>

fun finsert :: "float64 \<Rightarrow> farray \<Rightarrow> farray" where
  "finsert x [] = [x]"
| "finsert x (y # ys) = (if fle x y then x # y # ys else y # finsert x ys)"

definition fsort :: "farray \<Rightarrow> farray" where
  "fsort xs = foldr finsert xs []"

text \<open>
  \<^verbatim>\<open>numpy.median\<close>: NaN for an empty array or one that holds a NaN, else the middle value of
  the sorted array, the mean of the two middle values when the length is even.
\<close>

definition median :: "farray \<Rightarrow> float64" where
  "median xs =
     (if xs = [] \<or> list_ex isnan xs then NaN
      else let s = fsort xs; k = length s div 2
           in if odd (length s) then s ! k
              else fdiv (fadd (s ! (k - 1)) (s ! k)) (Fin 2))"

section \<open>The program\<close>

text \<open>
  \<^verbatim>\<open>ws2d(y, lmda, w)\<close>, the Whittaker smoother, is imported from another module and is a
  parameter here. It is expected to return an array as long as \<open>y\<close>.
\<close>

type_synonym smoother = "farray \<Rightarrow> float64 \<Rightarrow> farray \<Rightarrow> farray"

datatype error = IndexError | UnboundLocalError

text \<open>
  Instrumentation (no variable of the source): every call of \<^verbatim>\<open>ws2d\<close> is logged, in program
  order, with the place of the call, the penalty and the weight array passed.
\<close>

datatype phase = Scan nat | Envelope nat | Final

type_synonym call = "phase \<times> float64 \<times> farray"

subsection \<open>Validity weights and eigenvalues\<close>

text \<open>Line 34: the test that makes a sample invalid.\<close>

definition invalid :: "float64 \<Rightarrow> float64 \<Rightarrow> bool" where
  "invalid nodata v = (feq v nodata \<or> isnan v \<or> isinf v)"

text \<open>Lines 30 to 38: the weight array \<open>w\<close> and the count \<open>n\<close>.\<close>

definition validity :: "farray \<Rightarrow> float64 \<Rightarrow> farray" where
  "validity y nodata = map (\<lambda>v. if invalid nodata v then Fin 0 else Fin 1) y"

definition n_valid :: "farray \<Rightarrow> float64 \<Rightarrow> nat" where
  "n_valid y nodata = length (filter (\<lambda>v. \<not> invalid nodata v) y)"

text \<open>
  Lines 41 and 42. The store \<^verbatim>\<open>d_eigs[0] = 1e-15\<close> is outside an empty array: an IndexError.
\<close>

definition eig :: "nat \<Rightarrow> nat \<Rightarrow> float64" where
  "eig m k =
     fadd (Fin (- 2))
       (fmul (Fin 2) (fcos (fdiv (fmul (Fin (real k)) (Fin pi)) (Fin (real m)))))"

definition d_eigs :: "nat \<Rightarrow> error + farray" where
  "d_eigs m =
     (if m = 0 then Inl IndexError else Inr ((map (eig m) [0..<m])[0 := Fin (1 / 10 ^ 15)]))"

subsection \<open>The GCV score of one candidate penalty\<close>

text \<open>Lines 78 and 94: \<^verbatim>\<open>w_temp / (w_temp + lmda * ((-1 * d_eigs) ** 2))\<close>.\<close>

definition gamma_arr :: "farray \<Rightarrow> farray \<Rightarrow> float64 \<Rightarrow> farray" where
  "gamma_arr w_temp d lmda =
     map2 (\<lambda>wk dk. fdiv wk (fadd wk (fmul lmda (fpow2 (fmul (Fin (- 1)) dk))))) w_temp d"

text \<open>Lines 78 to 82.\<close>

definition gcv_score :: "farray \<Rightarrow> farray \<Rightarrow> farray \<Rightarrow> float64 \<Rightarrow> farray \<Rightarrow> float64" where
  "gcv_score y d w_temp lmda NDVI_smoothed =
     (let gamma = gamma_arr w_temp d lmda;
          tr_H = fsum gamma;
          wsse = fsum (map fpow2 (map2 fmul (map fpow_half w_temp) (map2 fsub y NDVI_smoothed)));
          denominator = fmul (fsum w_temp) (fpow2 (fsub (Fin 1) (fdiv tr_H (fsum w_temp))))
      in fdiv wsse denominator)"

subsection \<open>The robust loop\<close>

text \<open>
  The variables the loop of lines 62 to 111 reads and writes. \<open>tempNDVI_arr\<close> and
  \<open>robust_weights\<close> are unbound (\<open>None\<close>) until their first assignment.
\<close>

record state =
  r_weights :: farray
  robust_weights :: "farray option"
  robust_gcv :: "(float64 \<times> float64) list"
  gcv_temp :: "float64 \<times> float64"
  tempNDVI_arr :: "farray option"
  calls :: "call list"

text \<open>Lines 76 to 88: the body of \<^verbatim>\<open>for lmda in smoothing\<close>.\<close>

definition scan_step ::
  "smoother \<Rightarrow> farray \<Rightarrow> farray \<Rightarrow> farray \<Rightarrow> nat \<Rightarrow> state \<Rightarrow> float64 \<Rightarrow> state" where
  "scan_step ws2d y d w_temp it st lmda =
     (let NDVI_smoothed = ws2d y lmda w_temp;
          score = gcv_score y d w_temp lmda NDVI_smoothed;
          st1 = st\<lparr>calls := calls st @ [(Scan it, lmda, w_temp)]\<rparr>
      in if flt score (fst (gcv_temp st1))
         then st1\<lparr>gcv_temp := (score, lmda), tempNDVI_arr := Some NDVI_smoothed\<rparr>
         else st1)"

text \<open>Lines 94 to 107: the new robustness weights.\<close>

definition reweight ::
  "farray \<Rightarrow> farray \<Rightarrow> farray \<Rightarrow> float64 \<Rightarrow> float64 \<Rightarrow> farray \<Rightarrow> farray \<Rightarrow> farray" where
  "reweight y d w_temp s n rw tempNDVI =
     (let gamma = gamma_arr w_temp d s;
          r_arr = map2 fsub y tempNDVI;
          sel = map fst (filter (\<lambda>(r, v). fne v (Fin 0)) (zip r_arr rw));
          med = median sel;
          MAD = median (map (\<lambda>r. fabs (fsub r med)) sel);
          scale = fmul (fmul (Fin (14826 / 10000)) MAD)
                    (fsqrt (fsub (Fin 1) (fdiv (fsum gamma) n)));
          u_arr = map (\<lambda>r. fdiv r scale) r_arr;
          rw1 = map (\<lambda>u. fpow2 (fsub (Fin 1) (fpow2 (fdiv u (Fin (4685 / 1000)))))) u_arr;
          rw2 = map2 (\<lambda>u v. if fgt (fabs (fdiv u (Fin (4685 / 1000)))) (Fin 1) then Fin 0 else v)
                  u_arr rw1;
          rw3 = map2 (\<lambda>r v. if fgt r (Fin 0) then Fin 1 else v) r_arr rw2
      in rw3)"

text \<open>Lines 63 to 71: the grid the iteration scans.\<close>

definition smoothing_grid :: "farray \<Rightarrow> nat \<Rightarrow> (float64 \<times> float64) list \<Rightarrow> error + farray" where
  "smoothing_grid llas it gcvs =
     (if 1 < it \<and> \<not> 1 < length gcvs then Inl IndexError
      else let Sopt_Rog_val = (if 1 < it then snd (gcvs ! 1) else Fin 0)
           in if \<not> truthy Sopt_Rog_val then Inr (map pow10 llas) else Inr [Sopt_Rog_val])"

text \<open>Lines 63 to 111: one pass of \<^verbatim>\<open>for it in range(r_its)\<close>.\<close>

definition robust_iter ::
  "smoother \<Rightarrow> farray \<Rightarrow> farray \<Rightarrow> float64 \<Rightarrow> farray \<Rightarrow> farray \<Rightarrow> bool \<Rightarrow> nat \<Rightarrow> state
     \<Rightarrow> error + state" where
  "robust_iter ws2d y w n d llas robust it st =
     (case smoothing_grid llas it (robust_gcv st) of
        Inl e \<Rightarrow> Inl e
      | Inr smoothing \<Rightarrow>
          (let w_temp = map2 fmul w (r_weights st);
               st1 = foldl (scan_step ws2d y d w_temp it) st smoothing;
               best_gcv = gcv_temp st1;
               s = snd best_gcv
           in if robust then
                (case tempNDVI_arr st1 of
                   None \<Rightarrow> Inl UnboundLocalError
                 | Some t \<Rightarrow>
                     (let rw = reweight y d w_temp s n (r_weights st1) t
                      in Inr (st1\<lparr>r_weights := rw,
                                 robust_weights := Some (map2 fmul w rw),
                                 robust_gcv := robust_gcv st1 @ [best_gcv]\<rparr>)))
              else Inr (st1\<lparr>robust_weights := Some (map2 fmul w (r_weights st1)),
                            robust_gcv := robust_gcv st1 @ [best_gcv]\<rparr>)))"

text \<open>The loop over \<^verbatim>\<open>range(r_its)\<close>; an error ends it.\<close>

fun run_iters :: "(nat \<Rightarrow> state \<Rightarrow> error + state) \<Rightarrow> nat list \<Rightarrow> state \<Rightarrow> error + state" where
  "run_iters f [] st = Inr st"
| "run_iters f (it # its) st =
     (case f it st of Inl e \<Rightarrow> Inl e | Inr st' \<Rightarrow> run_iters f its st')"

text \<open>Lines 50 to 61: the state before the loop.\<close>

definition init_state :: "nat \<Rightarrow> state" where
  "init_state m =
     \<lparr>r_weights = replicate m (Fin 1), robust_weights = None, robust_gcv = [],
      gcv_temp = (Fin (10 ^ 15), Fin 0), tempNDVI_arr = None, calls = []\<rparr>"

text \<open>Lines 53 to 56.\<close>

definition r_its :: "bool \<Rightarrow> nat" where
  "r_its robust = (if \<not> robust then 1 else 4)"

definition robust_loop ::
  "smoother \<Rightarrow> farray \<Rightarrow> farray \<Rightarrow> float64 \<Rightarrow> farray \<Rightarrow> farray \<Rightarrow> bool \<Rightarrow> error + state" where
  "robust_loop ws2d y w n d llas robust =
     run_iters (robust_iter ws2d y w n d llas robust) [0..<r_its robust] (init_state (length y))"

text \<open>Lines 113 to 118: the penalty reported.\<close>

definition select_lopt :: "bool \<Rightarrow> (float64 \<times> float64) list \<Rightarrow> error + float64" where
  "select_lopt robust gcvs =
     (if robust then (if 1 < length gcvs then Inr (snd (gcvs ! 1)) else Inl IndexError)
      else (if 0 < length gcvs then Inr (snd (gcvs ! 0)) else Inl IndexError))"

subsection \<open>The envelope loop\<close>

text \<open>Lines 123 to 131: the weights \<open>ww\<close> of a pass, from the estimate \<open>z\<close>.\<close>

definition envelope_weights :: "farray \<Rightarrow> float64 \<Rightarrow> farray \<Rightarrow> farray \<Rightarrow> farray" where
  "envelope_weights y p rws z =
     (let wa = map2 (\<lambda>y_tmp z_tmp. if fgt y_tmp z_tmp then p else fsub (Fin 1) p) y z
      in map2 fmul rws wa)"

text \<open>Lines 134 to 137: the total absolute change \<open>z_tmp\<close>.\<close>

definition total_change :: "farray \<Rightarrow> farray \<Rightarrow> float64" where
  "total_change znew z = foldl (\<lambda>acc (a, b). fadd acc (fabs (fsub a b))) (Fin 0) (zip znew z)"

text \<open>
  Lines 122 to 142: \<^verbatim>\<open>for _ in range(10)\<close>, with the passes left to run as first numeric
  argument and the number of the pass as second. It returns the last \<open>ww\<close>.
\<close>

fun envelope_loop ::
  "smoother \<Rightarrow> farray \<Rightarrow> float64 \<Rightarrow> float64 \<Rightarrow> farray \<Rightarrow> nat \<Rightarrow> nat \<Rightarrow> farray \<Rightarrow> farray
     \<Rightarrow> call list \<Rightarrow> farray \<times> call list" where
  "envelope_loop ws2d y p lopt rws 0 k z ww cs = (ww, cs)"
| "envelope_loop ws2d y p lopt rws (Suc left) k z ww cs =
     (let ww' = envelope_weights y p rws z;
          znew = ws2d y lopt ww';
          cs' = cs @ [(Envelope k, lopt, ww')];
          z_tmp = total_change znew z
      in if feq z_tmp (Fin 0) then (ww', cs')
         else envelope_loop ws2d y p lopt rws left (Suc k) znew ww' cs')"

subsection \<open>The two entry points\<close>

text \<open>
  What a run produces: the curve and the penalty, which the source returns, and, as
  instrumentation, the list \<open>robust_gcv\<close> and the array \<open>r_weights\<close> as the robust loop leaves them
  and the log of the calls of \<^verbatim>\<open>ws2d\<close>.
\<close>

record 'a run =
  out :: "'a list"
  lopt :: float64
  history :: "(float64 \<times> float64) list"
  rweights :: farray
  trace :: "call list"

text \<open>Lines 46 to 144, which are lines 171 to 267 of the scalar variant.\<close>

definition optimise ::
  "smoother \<Rightarrow> farray \<Rightarrow> farray \<Rightarrow> float64 \<Rightarrow> farray \<Rightarrow> float64 \<Rightarrow> farray \<Rightarrow> bool
     \<Rightarrow> error + float64 run" where
  "optimise ws2d y w n d p llas robust =
     (case robust_loop ws2d y w n d llas robust of
        Inl e \<Rightarrow> Inl e
      | Inr st \<Rightarrow>
          (case select_lopt robust (robust_gcv st) of
             Inl e \<Rightarrow> Inl e
           | Inr l \<Rightarrow>
               (case robust_weights st of
                  None \<Rightarrow> Inl UnboundLocalError
                | Some rws \<Rightarrow>
                    (let m = length y;
                         (ww, cs) = envelope_loop ws2d y p l rws 10 0 (replicate m (Fin 0))
                                      (replicate m (Fin 0)) (calls st);
                         z = ws2d y l ww
                     in Inr \<lparr>out = z, lopt = l, history = robust_gcv st,
                             rweights = r_weights st, trace = cs @ [(Final, l, ww)]\<rparr>))))"

text \<open>\<^verbatim>\<open>ws2dwcvp(y, nodata, p, llas, robust, out, lopt)\<close>, lines 18 to 149.\<close>

definition ws2dwcvp_run ::
  "smoother \<Rightarrow> farray \<Rightarrow> float64 \<Rightarrow> float64 \<Rightarrow> farray \<Rightarrow> bool \<Rightarrow> error + int16 option run" where
  "ws2dwcvp_run ws2d y nodata p llas robust =
     (let m = length y;
          w = validity y nodata;
          n = n_valid y nodata
      in case d_eigs m of
           Inl e \<Rightarrow> Inl e
         | Inr d \<Rightarrow>
             if 5 < n then
               (case optimise ws2d y w (Fin (real n)) d p llas robust of
                  Inl e \<Rightarrow> Inl e
                | Inr r \<Rightarrow>
                    Inr \<lparr>out = map (\<lambda>v. to_int16 (fround v)) (out r), lopt = lopt r,
                         history = history r, rweights = rweights r, trace = trace r\<rparr>)
             else Inr \<lparr>out = map to_int16 y, lopt = Fin 0, history = [],
                       rweights = [], trace = []\<rparr>)"

definition ws2dwcvp ::
  "smoother \<Rightarrow> farray \<Rightarrow> float64 \<Rightarrow> float64 \<Rightarrow> farray \<Rightarrow> bool
     \<Rightarrow> error + int16 option list \<times> float64" where
  "ws2dwcvp ws2d y nodata p llas robust =
     map_sum id (\<lambda>r. (out r, lopt r)) (ws2dwcvp_run ws2d y nodata p llas robust)"



section \<open>Notions of the specification\<close>

text \<open>A sample that an \<^verbatim>\<open>int16\<close> cell holds exactly: an integer from \<open>-32768\<close> to \<open>32767\<close>.\<close>

definition int16_exact :: "float64 \<Rightarrow> bool" where
  "int16_exact v =
     (case v of Fin a \<Rightarrow> a = of_int \<lfloor>a\<rfloor> \<and> - 32768 \<le> \<lfloor>a\<rfloor> \<and> \<lfloor>a\<rfloor> \<le> 32767 | _ \<Rightarrow> False)"

text \<open>The GCV score of the candidate \<open>l\<close> in a scan with the weights \<open>wt\<close> (lines 76 to 82).\<close>

definition cand_score :: "smoother \<Rightarrow> farray \<Rightarrow> farray \<Rightarrow> farray \<Rightarrow> float64 \<Rightarrow> float64" where
  "cand_score ws2d y d wt l = gcv_score y d wt l (ws2d y l wt)"

text \<open>
  The record (score, penalty) a scan of the grid \<open>g\<close> ends with when it starts from the
  record \<open>inc\<close>: a candidate replaces the record when its score is strictly less.
\<close>

definition best_from ::
  "smoother \<Rightarrow> farray \<Rightarrow> farray \<Rightarrow> farray \<Rightarrow> float64 \<times> float64 \<Rightarrow> farray \<Rightarrow> float64 \<times> float64" where
  "best_from ws2d y d wt inc g =
     foldl (\<lambda>b l. if flt (cand_score ws2d y d wt l) (fst b) then (cand_score ws2d y d wt l, l) else b)
       inc g"

text \<open>The penalties and the weight array of the calls a log holds for the scan of iteration \<open>it\<close>.\<close>

definition scan_grid :: "nat \<Rightarrow> call list \<Rightarrow> farray" where
  "scan_grid it cs = map (\<lambda>c. fst (snd c)) (filter (\<lambda>c. fst c = Scan it) cs)"

definition scan_weights :: "nat \<Rightarrow> call list \<Rightarrow> farray" where
  "scan_weights it cs =
     (case filter (\<lambda>c. fst c = Scan it) cs of [] \<Rightarrow> [] | c # _ \<Rightarrow> snd (snd c))"

text \<open>
  The record iteration \<open>k\<close> starts from, given the list \<open>robust_gcv\<close>: the one of line 61 for
  the first iteration, the entry of the iteration before for the others.
\<close>

definition incumbent :: "nat \<Rightarrow> (float64 \<times> float64) list \<Rightarrow> float64 \<times> float64" where
  "incumbent k h = (if k = 0 then (Fin (10 ^ 15), Fin 0) else h ! (k - 1))"



text \<open>The robust loop cut after \<open>r\<close> iterations.\<close>

definition loop_upto ::
  "smoother \<Rightarrow> farray \<Rightarrow> farray \<Rightarrow> float64 \<Rightarrow> farray \<Rightarrow> farray \<Rightarrow> bool \<Rightarrow> nat \<Rightarrow> error + state" where
  "loop_upto ws2d y w n d llas robust r =
     run_iters (robust_iter ws2d y w n d llas robust) [0..<r] (init_state (length y))"

text \<open>
  The estimate \<open>z\<close> a pass of the envelope loop starts from, given the start \<open>z0\<close> and the
  calls \<open>env\<close> of the loop: \<open>z0\<close> for the first pass, the result of the call before for the
  others.
\<close>

definition pass_input :: "smoother \<Rightarrow> farray \<Rightarrow> farray \<Rightarrow> call list \<Rightarrow> nat \<Rightarrow> farray" where
  "pass_input ws2d y z0 env j =
     (case j of 0 \<Rightarrow> z0 | Suc i \<Rightarrow> ws2d y (fst (snd (env ! i))) (snd (snd (env ! i))))"

subsection \<open>Invariants of the robust loop\<close>

text \<open>
  After \<open>r\<close> iterations: the list \<open>robust_gcv\<close> has \<open>r\<close> entries, the record \<open>gcv_temp\<close> is its
  last entry, the log holds the scans of the iterations below \<open>r\<close> only, and every entry is
  what the scan of its iteration makes of the record the iteration started from.
\<close>

definition loop_inv ::
  "smoother \<Rightarrow> farray \<Rightarrow> farray \<Rightarrow> farray \<Rightarrow> farray \<Rightarrow> nat \<Rightarrow> state \<Rightarrow> bool" where
  "loop_inv ws2d y w d llas r st =
     (length (robust_gcv st) = r
      \<and> gcv_temp st = incumbent r (robust_gcv st)
      \<and> (\<forall>c \<in> set (calls st). \<exists>j<r. \<exists>l ws. c = (Scan j, l, ws))
      \<and> (\<forall>k<r. smoothing_grid llas k (take k (robust_gcv st)) = Inr (scan_grid k (calls st)))
      \<and> (\<forall>k<r. robust_gcv st ! k =
             best_from ws2d y d (scan_weights k (calls st)) (incumbent k (robust_gcv st))
               (scan_grid k (calls st)))
      \<and> (0 < r \<longrightarrow> robust_weights st = Some (map2 fmul w (r_weights st))))"



subsection \<open>Inputs and results of the worked runs\<close>

text \<open>
  Four runs are worked out below: the identity smoother on a series with one sentinel sample
  (\<open>a\<close>), a smoother that returns a line on such a series (\<open>b\<close>), the identity smoother on a
  series with a NaN sample (\<open>c\<close>) and on a series of two samples (\<open>d\<close>).
\<close>

abbreviation ident :: smoother where
  "ident \<equiv> (\<lambda>y l w. y)"

abbreviation series_a :: farray where
  "series_a \<equiv> [Fin 1, Fin 2, Fin 3, Fin 4, Fin 5, Fin 6, Fin (- 9999)]"

abbreviation weights_a :: farray where
  "weights_a \<equiv> [Fin 1, Fin 1, Fin 1, Fin 1, Fin 1, Fin 1, Fin 0]"

abbreviation nan7 :: farray where
  "nan7 \<equiv> [NaN, NaN, NaN, NaN, NaN, NaN, NaN]"

abbreviation ones7 :: farray where
  "ones7 \<equiv> [Fin 1, Fin 1, Fin 1, Fin 1, Fin 1, Fin 1, Fin 1]"

abbreviation state_a :: "nat \<Rightarrow> state" where
  "state_a k \<equiv> \<lparr>r_weights = nan7, robust_weights = Some nan7,
      robust_gcv = replicate k (Fin 0, Fin 1), gcv_temp = (Fin 0, Fin 1),
      tempNDVI_arr = Some series_a,
      calls = (Scan 0, Fin 1, weights_a) # map (\<lambda>j. (Scan j, Fin 1, nan7)) [1..<k]\<rparr>"

abbreviation record_a :: "float64 \<times> float64" where
  "record_a \<equiv> (Fin 0, Fin 1)"

abbreviation final_state_a :: state where
  "final_state_a \<equiv> \<lparr>r_weights = nan7, robust_weights = Some nan7,
      robust_gcv = [record_a, record_a, record_a, record_a], gcv_temp = record_a,
      tempNDVI_arr = Some series_a,
      calls = [(Scan 0, Fin 1, weights_a), (Scan 1, Fin 1, nan7), (Scan 2, Fin 1, nan7),
               (Scan 3, Fin 1, nan7)]\<rparr>"

abbreviation trace_a :: "call list" where
  "trace_a \<equiv> [(Scan 0, Fin 1, weights_a), (Scan 1, Fin 1, nan7), (Scan 2, Fin 1, nan7),
              (Scan 3, Fin 1, nan7), (Envelope 0, Fin 1, nan7), (Envelope 1, Fin 1, nan7),
              (Final, Fin 1, nan7)]"

abbreviation run_a :: "int16 option run" where
  "run_a \<equiv> \<lparr>out = [Some 1, Some 2, Some 3, Some 4, Some 5, Some 6, Some (word_of_int (- 9999))],
     lopt = Fin 1, history = [record_a, record_a, record_a, record_a], rweights = nan7,
     trace = trace_a\<rparr>"

abbreviation line7 :: smoother where
  "line7 \<equiv> (\<lambda>y l w. [Fin 1, Fin 2, Fin 3, Fin 4, Fin 5, Fin 6, Fin 7])"

abbreviation series_b :: farray where
  "series_b \<equiv> [Fin 1, Fin 2, Fin 3, Fin 4, Fin 5, Fin 6, Fin 255]"

abbreviation rweights_b :: farray where
  "rweights_b \<equiv> [NaN, NaN, NaN, NaN, NaN, NaN, Fin 1]"

abbreviation weights_b :: farray where
  "weights_b \<equiv> [NaN, NaN, NaN, NaN, NaN, NaN, Fin 0]"

abbreviation state_b :: "nat \<Rightarrow> state" where
  "state_b k \<equiv> \<lparr>r_weights = rweights_b, robust_weights = Some weights_b,
      robust_gcv = replicate k (Fin 0, Fin 1), gcv_temp = (Fin 0, Fin 1),
      tempNDVI_arr = Some [Fin 1, Fin 2, Fin 3, Fin 4, Fin 5, Fin 6, Fin 7],
      calls = (Scan 0, Fin 1, weights_a) # map (\<lambda>j. (Scan j, Fin 1, weights_b)) [1..<k]\<rparr>"

abbreviation final_state_b :: state where
  "final_state_b \<equiv> \<lparr>r_weights = rweights_b, robust_weights = Some weights_b,
      robust_gcv = [record_a, record_a, record_a, record_a], gcv_temp = record_a,
      tempNDVI_arr = Some [Fin 1, Fin 2, Fin 3, Fin 4, Fin 5, Fin 6, Fin 7],
      calls = [(Scan 0, Fin 1, weights_a), (Scan 1, Fin 1, weights_b), (Scan 2, Fin 1, weights_b),
               (Scan 3, Fin 1, weights_b)]\<rparr>"

abbreviation trace_b :: "call list" where
  "trace_b \<equiv> [(Scan 0, Fin 1, weights_a), (Scan 1, Fin 1, weights_b), (Scan 2, Fin 1, weights_b),
              (Scan 3, Fin 1, weights_b), (Envelope 0, Fin 1, weights_b),
              (Envelope 1, Fin 1, weights_b), (Final, Fin 1, weights_b)]"

abbreviation run_b :: "int16 option run" where
  "run_b \<equiv> \<lparr>out = [Some 1, Some 2, Some 3, Some 4, Some 5, Some 6, Some 7],
     lopt = Fin 1, history = [record_a, record_a, record_a, record_a], rweights = rweights_b,
     trace = trace_b\<rparr>"

abbreviation series_c :: farray where
  "series_c \<equiv> [Fin 1, Fin 2, Fin 3, Fin 4, Fin 5, Fin 6, NaN]"








abbreviation eigs7 :: farray where
  "eigs7 \<equiv> (map (eig 7) [0..<7])[0 := Fin (1 / 10 ^ 15)]"

section \<open>Facts about float64 arithmetic\<close>

lemma fmul_NaN_right [simp]: "fmul x NaN = NaN"
  by (cases x) simp_all

lemma fadd_NaN_right [simp]: "fadd x NaN = NaN"
  by (cases x) simp_all

lemma fdiv_NaN_right [simp]: "fdiv x NaN = NaN"
  by (cases x) simp_all

lemma flt_NaN_right [simp]: "\<not> flt x NaN"
  by (cases x) simp_all

lemma fmul_zero_cases: "fmul (Fin 0) x = Fin 0 \<or> fmul (Fin 0) x = NaN"
  by (cases x) (simp_all add: inf_of_sign_def)

lemma fmul_zero_finite: "isfinite x \<Longrightarrow> fmul (Fin 0) x = Fin 0"
  by (cases x) simp_all




lemma flt_irrefl [simp]: "\<not> flt a a"
  by (cases a) simp_all

lemma flt_trans: "flt a b \<Longrightarrow> flt b c \<Longrightarrow> flt a c"
  by (cases a; cases b; cases c) simp_all

lemma flt_below: "flt a b \<Longrightarrow> \<not> flt c b \<Longrightarrow> \<not> isnan c \<Longrightarrow> flt a c"
  by (cases a; cases b; cases c) simp_all



lemma foldl_fadd_NaN [simp]: "foldl fadd NaN xs = NaN"
  by (induction xs) simp_all

lemma fsum_NaN: "NaN \<in> set xs \<Longrightarrow> fsum xs = NaN"
proof -
  have "NaN \<in> set xs \<Longrightarrow> foldl fadd a xs = NaN" for a
    by (induction xs arbitrary: a) auto
  then show "NaN \<in> set xs \<Longrightarrow> fsum xs = NaN"
    by (simp add: fsum_def)
qed

lemma foldl_fadd_Fin: "foldl fadd (Fin a) (map Fin rs) = Fin (a + sum_list rs)"
  by (induction rs arbitrary: a) (simp_all add: add.assoc)

lemma fsum_Fin: "fsum (map Fin rs) = Fin (sum_list rs)"
  by (simp add: fsum_def foldl_fadd_Fin)

lemma fsum_zeros: "\<forall>x \<in> set xs. x = Fin 0 \<Longrightarrow> fsum xs = Fin 0"
  unfolding fsum_def by (induction xs) simp_all

lemma fsum_nth_Fin:
  assumes "\<forall>i < length xs. xs ! i = Fin (f i)"
  shows "fsum xs = Fin (\<Sum>i<length xs. f i)"
proof -
  have e: "xs = map Fin (map f [0..<length xs])"
    using assms by (intro nth_equalityI) simp_all
  have 1: "fsum xs = fsum (map Fin (map f [0..<length xs]))"
    using e by (rule arg_cong)
  have 2: "sum_list (map f [0..<length xs]) = (\<Sum>i<length xs. f i)"
    by (simp add: interv_sum_list_conv_sum_set_nat atLeast0LessThan)
  show ?thesis
    unfolding 1 fsum_Fin 2 ..
qed



section \<open>The scan of a grid\<close>

lemma scan_step_fields [simp]:
  "r_weights (scan_step ws2d y d wt it st l) = r_weights st"
  "robust_weights (scan_step ws2d y d wt it st l) = robust_weights st"
  "robust_gcv (scan_step ws2d y d wt it st l) = robust_gcv st"
  "calls (scan_step ws2d y d wt it st l) = calls st @ [(Scan it, l, wt)]"
  by (simp_all add: scan_step_def Let_def)

lemma scan_fields [simp]:
  "r_weights (foldl (scan_step ws2d y d wt it) st g) = r_weights st"
  "robust_weights (foldl (scan_step ws2d y d wt it) st g) = robust_weights st"
  "robust_gcv (foldl (scan_step ws2d y d wt it) st g) = robust_gcv st"
  "calls (foldl (scan_step ws2d y d wt it) st g) = calls st @ map (\<lambda>l. (Scan it, l, wt)) g"
  by (induction g arbitrary: st) simp_all

lemma scan_step_record:
  "gcv_temp (scan_step ws2d y d wt it st l) =
     (if flt (cand_score ws2d y d wt l) (fst (gcv_temp st)) then (cand_score ws2d y d wt l, l) else gcv_temp st)"
  "tempNDVI_arr (scan_step ws2d y d wt it st l) =
     (if flt (cand_score ws2d y d wt l) (fst (gcv_temp st)) then Some (ws2d y l wt) else tempNDVI_arr st)"
  by (simp_all add: scan_step_def Let_def cand_score_def)

lemma scan_step_eq:
  "scan_step ws2d y d wt it st l =
     (if flt (gcv_score y d wt l (ws2d y l wt)) (fst (gcv_temp st))
      then st\<lparr>calls := calls st @ [(Scan it, l, wt)],
              gcv_temp := (gcv_score y d wt l (ws2d y l wt), l),
              tempNDVI_arr := Some (ws2d y l wt)\<rparr>
      else st\<lparr>calls := calls st @ [(Scan it, l, wt)]\<rparr>)"
  by (simp add: scan_step_def Let_def)

lemma scan_result:
  fixes g :: farray
  assumes sc_def: "sc = cand_score ws2d y d wt"
  shows "let st' = foldl (scan_step ws2d y d wt it) st g in
    (\<forall>l \<in> set g. \<not> flt (sc l) (fst (gcv_temp st')))
    \<and> \<not> flt (fst (gcv_temp st)) (fst (gcv_temp st'))
    \<and> ((gcv_temp st' = gcv_temp st \<and> tempNDVI_arr st' = tempNDVI_arr st)
       \<or> (\<exists>i < length g. gcv_temp st' = (sc (g ! i), g ! i)
             \<and> tempNDVI_arr st' = Some (ws2d y (g ! i) wt)
             \<and> flt (sc (g ! i)) (fst (gcv_temp st))
             \<and> (\<forall>j < i. isnan (sc (g ! j)) \<or> flt (sc (g ! i)) (sc (g ! j)))))"
proof (induction g rule: rev_induct)
  case Nil
  show ?case by simp
next
  case (snoc l g)
  define st1 where "st1 = foldl (scan_step ws2d y d wt it) st g"
  have ih1: "\<forall>l \<in> set g. \<not> flt (sc l) (fst (gcv_temp st1))"
    and ih2: "\<not> flt (fst (gcv_temp st)) (fst (gcv_temp st1))"
    and ih3: "(gcv_temp st1 = gcv_temp st \<and> tempNDVI_arr st1 = tempNDVI_arr st)
       \<or> (\<exists>i < length g. gcv_temp st1 = (sc (g ! i), g ! i)
             \<and> tempNDVI_arr st1 = Some (ws2d y (g ! i) wt)
             \<and> flt (sc (g ! i)) (fst (gcv_temp st))
             \<and> (\<forall>j < i. isnan (sc (g ! j)) \<or> flt (sc (g ! i)) (sc (g ! j))))"
    using snoc by (simp_all add: st1_def Let_def)
  show ?case
  proof (cases "flt (sc l) (fst (gcv_temp st1))")
    case True
    have rec: "gcv_temp (scan_step ws2d y d wt it st1 l) = (sc l, l)"
      and tmp: "tempNDVI_arr (scan_step ws2d y d wt it st1 l) = Some (ws2d y l wt)"
      using True by (simp_all add: scan_step_record sc_def)
    have a: "\<forall>l' \<in> set g. \<not> flt (sc l') (sc l)"
      using ih1 True flt_trans by blast
    have b: "\<not> flt (fst (gcv_temp st)) (sc l)"
      using ih2 True flt_trans by blast
    have c: "flt (sc l) (fst (gcv_temp st))"
    proof (cases "gcv_temp st1 = gcv_temp st")
      case True
      with \<open>flt (sc l) (fst (gcv_temp st1))\<close> show ?thesis by simp
    next
      case False
      with ih3 obtain i where "i < length g" "gcv_temp st1 = (sc (g ! i), g ! i)"
        "flt (sc (g ! i)) (fst (gcv_temp st))" by auto
      with True show ?thesis using flt_trans by fastforce
    qed
    have d: "\<forall>j < length g. isnan (sc (g ! j)) \<or> flt (sc l) (sc (g ! j))"
    proof (intro allI impI)
      fix j assume j: "j < length g"
      then have "\<not> flt (sc (g ! j)) (fst (gcv_temp st1))" using ih1 by simp
      then show "isnan (sc (g ! j)) \<or> flt (sc l) (sc (g ! j))"
        using True flt_below by blast
    qed
    have "\<exists>i < length (g @ [l]). (sc l, l) = (sc ((g @ [l]) ! i), (g @ [l]) ! i)
             \<and> Some (ws2d y l wt) = Some (ws2d y ((g @ [l]) ! i) wt)
             \<and> flt (sc ((g @ [l]) ! i)) (fst (gcv_temp st))
             \<and> (\<forall>j < i. isnan (sc ((g @ [l]) ! j)) \<or> flt (sc ((g @ [l]) ! i)) (sc ((g @ [l]) ! j)))"
      using c d by (intro exI[of _ "length g"]) (simp add: nth_append)
    then show ?thesis
      using a b rec tmp by (simp add: Let_def flip: st1_def)
  next
    case False
    have rec: "gcv_temp (scan_step ws2d y d wt it st1 l) = gcv_temp st1"
      and tmp: "tempNDVI_arr (scan_step ws2d y d wt it st1 l) = tempNDVI_arr st1"
      using False by (simp_all add: scan_step_record sc_def)
    have "(\<exists>i < length g. gcv_temp st1 = (sc (g ! i), g ! i)
             \<and> tempNDVI_arr st1 = Some (ws2d y (g ! i) wt)
             \<and> flt (sc (g ! i)) (fst (gcv_temp st))
             \<and> (\<forall>j < i. isnan (sc (g ! j)) \<or> flt (sc (g ! i)) (sc (g ! j))))
      \<Longrightarrow> (\<exists>i < length (g @ [l]). gcv_temp st1 = (sc ((g @ [l]) ! i), (g @ [l]) ! i)
             \<and> tempNDVI_arr st1 = Some (ws2d y ((g @ [l]) ! i) wt)
             \<and> flt (sc ((g @ [l]) ! i)) (fst (gcv_temp st))
             \<and> (\<forall>j < i. isnan (sc ((g @ [l]) ! j)) \<or> flt (sc ((g @ [l]) ! i)) (sc ((g @ [l]) ! j))))"
      by (elim exE conjE, rule_tac x = i in exI) (simp add: nth_append)
    then show ?thesis
      using False ih1 ih2 ih3 rec tmp by (auto simp add: Let_def simp flip: st1_def)
  qed
qed

lemma scan_best_from:
  "gcv_temp (foldl (scan_step ws2d y d wt it) st g) = best_from ws2d y d wt (gcv_temp st) g"
  unfolding best_from_def
  by (induction g arbitrary: st) (simp_all add: scan_step_record)

lemma best_from_Nil [simp]: "best_from ws2d y d wt inc [] = inc"
  by (simp add: best_from_def)


lemma best_from_result:
  fixes g :: farray
  assumes sc: "sc = cand_score ws2d y d wt" and e: "e = best_from ws2d y d wt inc g"
  shows "(\<forall>l \<in> set g. \<not> flt (sc l) (fst e))
    \<and> \<not> flt (fst inc) (fst e)
    \<and> (e = inc
       \<or> (\<exists>i < length g. e = (sc (g ! i), g ! i)
             \<and> flt (sc (g ! i)) (fst inc)
             \<and> (\<forall>j < i. isnan (sc (g ! j)) \<or> flt (sc (g ! i)) (sc (g ! j)))))"
proof -
  define st where "st = (init_state 0)\<lparr>gcv_temp := inc\<rparr>"
  have "e = gcv_temp (foldl (scan_step ws2d y d wt 0) st g)"
    by (simp add: e scan_best_from st_def)
  moreover have "gcv_temp st = inc"
    by (simp add: st_def)
  ultimately show ?thesis
    using scan_result[OF sc, of 0 st g] by (auto simp: Let_def)
qed


section \<open>The iterations of the robust loop\<close>

lemma run_iters_append:
  "run_iters f (xs @ ys) st =
     (case run_iters f xs st of Inl e \<Rightarrow> Inl e | Inr s \<Rightarrow> run_iters f ys s)"
  by (induction xs arbitrary: st) (simp_all split: sum.splits)

lemma loop_upto_0: "loop_upto ws2d y w n d llas robust 0 = Inr (init_state (length y))"
  by (simp add: loop_upto_def)

lemma loop_upto_Suc:
  "loop_upto ws2d y w n d llas robust (Suc r) = Inr st' \<Longrightarrow>
   \<exists>st. loop_upto ws2d y w n d llas robust r = Inr st
      \<and> robust_iter ws2d y w n d llas robust r st = Inr st'"
  by (auto simp: loop_upto_def run_iters_append split: sum.splits)

lemma robust_loop_upto:
  "robust_loop ws2d y w n d llas robust = loop_upto ws2d y w n d llas robust (r_its robust)"
  by (simp add: robust_loop_def loop_upto_def)

lemma r_its_cases: "r_its robust = (if robust then 4 else 1)"
  by (simp add: r_its_def)

lemma robust_iter_Inr:
  assumes "robust_iter ws2d y w n d llas robust it st = Inr st'"
  obtains g where "smoothing_grid llas it (robust_gcv st) = Inr g"
    and "gcv_temp st' = best_from ws2d y d (map2 fmul w (r_weights st)) (gcv_temp st) g"
    and "tempNDVI_arr st' = tempNDVI_arr (foldl (scan_step ws2d y d (map2 fmul w (r_weights st)) it) st g)"
    and "calls st' = calls st @ map (\<lambda>l. (Scan it, l, map2 fmul w (r_weights st))) g"
    and "robust_gcv st' = robust_gcv st @ [gcv_temp st']"
    and "robust_weights st' = Some (map2 fmul w (r_weights st'))"
    and "\<not> robust \<Longrightarrow> r_weights st' = r_weights st"
    and "robust \<Longrightarrow> \<exists>t. tempNDVI_arr st' = Some t
           \<and> r_weights st' = reweight y d (map2 fmul w (r_weights st)) (snd (gcv_temp st')) n (r_weights st) t"
proof -
  from assms obtain g where g: "smoothing_grid llas it (robust_gcv st) = Inr g"
    by (auto simp: robust_iter_def split: sum.splits)
  define st1 where "st1 = foldl (scan_step ws2d y d (map2 fmul w (r_weights st)) it) st g"
  show thesis
  proof (cases robust)
    case True
    with assms g obtain t where t: "tempNDVI_arr st1 = Some t"
      and st': "st' = st1\<lparr>r_weights := reweight y d (map2 fmul w (r_weights st)) (snd (gcv_temp st1)) n (r_weights st1) t,
                         robust_weights := Some (map2 fmul w (reweight y d (map2 fmul w (r_weights st)) (snd (gcv_temp st1)) n (r_weights st1) t)),
                         robust_gcv := robust_gcv st1 @ [gcv_temp st1]\<rparr>"
      by (auto simp: robust_iter_def Let_def st1_def split: option.splits)
    show thesis
      by (rule that[OF g]) (use True t in \<open>simp_all add: st' st1_def scan_best_from\<close>)
  next
    case False
    with assms g have st': "st' = st1\<lparr>robust_weights := Some (map2 fmul w (r_weights st1)),
                            robust_gcv := robust_gcv st1 @ [gcv_temp st1]\<rparr>"
      by (auto simp: robust_iter_def Let_def st1_def)
    show thesis
      by (rule that[OF g]) (use False in \<open>simp_all add: st' st1_def scan_best_from\<close>)
  qed
qed

lemma filter_scan_map:
  "filter (\<lambda>c. fst c = Scan k) (map (\<lambda>l. (Scan j, l, wt)) g) = (if j = k then map (\<lambda>l. (Scan j, l, wt)) g else [])"
  by (induction g) auto

lemma scan_grid_append_new:
  "\<forall>c \<in> set cs. \<exists>j<r. \<exists>l ws. c = (Scan j, l, ws) \<Longrightarrow>
   scan_grid k (cs @ map (\<lambda>l. (Scan r, l, wt)) g) = (if k = r then g else scan_grid k cs)"
proof -
  assume a: "\<forall>c \<in> set cs. \<exists>j<r. \<exists>l ws. c = (Scan j, l, ws)"
  then have "filter (\<lambda>c. fst c = Scan r) cs = []"
    by (auto simp: filter_empty_conv)
  then show ?thesis
    by (simp add: scan_grid_def filter_scan_map comp_def)
qed

lemma scan_weights_append_new:
  "\<forall>c \<in> set cs. \<exists>j<r. \<exists>l ws. c = (Scan j, l, ws) \<Longrightarrow>
   scan_weights k (cs @ map (\<lambda>l. (Scan r, l, wt)) g)
     = (if k = r then (if g = [] then [] else wt) else scan_weights k cs)"
proof -
  assume a: "\<forall>c \<in> set cs. \<exists>j<r. \<exists>l ws. c = (Scan j, l, ws)"
  then have "filter (\<lambda>c. fst c = Scan r) cs = []"
    by (auto simp: filter_empty_conv)
  then show ?thesis
    by (cases g) (simp_all add: scan_weights_def filter_scan_map)
qed

lemma smoothing_grid_take:
  "smoothing_grid llas k h = smoothing_grid llas k (take k h)" if "length h = k"
  using that by simp

lemma smoothing_grid_prefix:
  "k \<le> length h \<Longrightarrow> smoothing_grid llas k (take k (h @ [x])) = smoothing_grid llas k (take k h)"
  by simp



lemma incumbent_append:
  "k \<le> length h \<Longrightarrow> incumbent k (h @ [x]) = incumbent k h"
  by (auto simp: incumbent_def nth_append)

lemma loop_inv_holds:
  "loop_upto ws2d y w n d llas robust r = Inr st \<Longrightarrow> loop_inv ws2d y w d llas r st"
proof (induction r arbitrary: st)
  case 0
  then have "st = init_state (length y)"
    by (simp add: loop_upto_0)
  then show ?case
    by (simp add: loop_inv_def init_state_def incumbent_def)
next
  case (Suc r)
  from loop_upto_Suc[OF Suc.prems] obtain s where
    s: "loop_upto ws2d y w n d llas robust r = Inr s"
    and it: "robust_iter ws2d y w n d llas robust r s = Inr st" by blast
  note inv = Suc.IH[OF s, unfolded loop_inv_def]
  from inv have len: "length (robust_gcv s) = r"
    and inc: "gcv_temp s = incumbent r (robust_gcv s)"
    and tags: "\<forall>c \<in> set (calls s). \<exists>j<r. \<exists>l ws. c = (Scan j, l, ws)"
    and grids: "\<forall>k<r. smoothing_grid llas k (take k (robust_gcv s)) = Inr (scan_grid k (calls s))"
    and recs: "\<forall>k<r. robust_gcv s ! k =
             best_from ws2d y d (scan_weights k (calls s)) (incumbent k (robust_gcv s))
               (scan_grid k (calls s))"
    by simp_all
  from it obtain g where g: "smoothing_grid llas r (robust_gcv s) = Inr g"
    and best: "gcv_temp st = best_from ws2d y d (map2 fmul w (r_weights s)) (gcv_temp s) g"
    and cs: "calls st = calls s @ map (\<lambda>l. (Scan r, l, map2 fmul w (r_weights s))) g"
    and h: "robust_gcv st = robust_gcv s @ [gcv_temp st]"
    and rw: "robust_weights st = Some (map2 fmul w (r_weights st))"
    by (rule robust_iter_Inr)
  have 1: "length (robust_gcv st) = Suc r"
    using h len by simp
  have 2: "gcv_temp st = incumbent (Suc r) (robust_gcv st)"
    using h len by (simp add: incumbent_def nth_append)
  have 3: "\<forall>c \<in> set (calls st). \<exists>j<Suc r. \<exists>l ws. c = (Scan j, l, ws)"
    using tags cs by (auto intro: less_SucI)
  have 4: "smoothing_grid llas k (take k (robust_gcv st)) = Inr (scan_grid k (calls st))"
    if "k < Suc r" for k
  proof (cases "k = r")
    case True
    then show ?thesis
      using g len by (simp add: h cs scan_grid_append_new[OF tags])
  next
    case False
    with that have "k < r" by simp
    then show ?thesis
      using grids len by (simp add: h cs scan_grid_append_new[OF tags])
  qed
  have 5: "robust_gcv st ! k =
             best_from ws2d y d (scan_weights k (calls st)) (incumbent k (robust_gcv st))
               (scan_grid k (calls st))" if "k < Suc r" for k
  proof (cases "k = r")
    case True
    have "incumbent r (robust_gcv st) = gcv_temp s"
      using inc len by (simp add: h incumbent_append)
    moreover have "best_from ws2d y d (if g = [] then [] else map2 fmul w (r_weights s)) (gcv_temp s) g
        = best_from ws2d y d (map2 fmul w (r_weights s)) (gcv_temp s) g"
      by simp
    ultimately show ?thesis
      using True len best
      by (simp add: cs scan_grid_append_new[OF tags] scan_weights_append_new[OF tags])
         (simp add: h nth_append)
  next
    case False
    with that have k: "k < r" by simp
    have "incumbent k (robust_gcv st) = incumbent k (robust_gcv s)"
      using k len by (simp add: h incumbent_append)
    then show ?thesis
      using k False recs len
      by (simp add: cs scan_grid_append_new[OF tags] scan_weights_append_new[OF tags])
         (simp add: h nth_append)
  qed
  show ?case
    unfolding loop_inv_def using 1 2 3 4 5 rw by blast
qed







lemma reweight_length:
  "length (reweight y d wt s n rw t) = min (length y) (length t)"
  by (simp add: reweight_def Let_def)

lemma reweight_positive:
  assumes "i < length y" "i < length t" "fgt (fsub (y ! i) (t ! i)) (Fin 0)"
  shows "reweight y d wt s n rw t ! i = Fin 1"
  using assms by (simp add: reweight_def Let_def)

lemma reweight_degenerate:
  assumes r: "r_arr = map2 fsub y t"
    and sel: "sel = map fst (filter (\<lambda>(r, v). fne v (Fin 0)) (zip r_arr rw))"
    and mad: "median (map (\<lambda>r. fabs (fsub r (median sel))) sel) = Fin 0"
    and pos: "list_all (\<lambda>r. r = Fin 0 \<or> fgt r (Fin 0)) r_arr"
  shows "reweight y d wt s n rw t = map (\<lambda>r. if fgt r (Fin 0) then Fin 1 else NaN) r_arr"
proof -
  define X where "X = fsqrt (fsub (Fin 1) (fdiv (fsum (gamma_arr wt d s)) n))"
  define scale where "scale = fmul (fmul (Fin (14826 / 10000)) (Fin 0)) X"
  have sc: "scale = Fin 0 \<or> scale = NaN"
    using fmul_zero_cases[of X] by (simp add: scale_def)
  have u0: "fdiv (Fin 0) scale = NaN"
    using sc by (auto simp: inf_of_sign_def)
  define f where "f r = (let u = fdiv r scale;
       v1 = fpow2 (fsub (Fin 1) (fpow2 (fdiv u (Fin (4685 / 1000)))));
       v2 = (if fgt (fabs (fdiv u (Fin (4685 / 1000)))) (Fin 1) then Fin 0 else v1)
     in if fgt r (Fin 0) then Fin 1 else v2)" for r
  have rw: "reweight y d wt s n rw t = map f r_arr"
    unfolding reweight_def Let_def r[symmetric] sel[symmetric] mad
      X_def[symmetric] scale_def[symmetric]
    by (intro nth_equalityI) (simp_all add: f_def Let_def)
  have "f r = (if fgt r (Fin 0) then Fin 1 else NaN)" if "r \<in> set r_arr" for r
  proof -
    from pos that have "r = Fin 0 \<or> fgt r (Fin 0)"
      by (simp add: list_all_iff)
    then show ?thesis
      using u0 by (auto simp: f_def Let_def fgt_def fpow2_def fsub_def)
  qed
  then show ?thesis
    unfolding rw by simp
qed

section \<open>The passes of the envelope loop\<close>

lemma pass_input_Cons:
  "pass_input ws2d y z ((ph, l, ws) # env) (Suc j) = pass_input ws2d y (ws2d y l ws) env j"
  by (cases j) (simp_all add: pass_input_def)

lemma envelope_loop_trace:
  "envelope_loop ws2d y p l rws left k z ww0 cs = (ww, cs') \<Longrightarrow>
   \<exists>env. cs' = cs @ env \<and> length env \<le> left
     \<and> map fst env = map Envelope [k..<k + length env]
     \<and> (\<forall>j < length env. fst (snd (env ! j)) = l
           \<and> snd (snd (env ! j)) = envelope_weights y p rws (pass_input ws2d y z env j)
           \<and> (Suc j < length env \<longrightarrow>
                \<not> feq (total_change (ws2d y l (snd (snd (env ! j)))) (pass_input ws2d y z env j)) (Fin 0)))
     \<and> (0 < left \<longrightarrow> env \<noteq> [] \<and> snd (snd (last env)) = ww)
     \<and> (length env < left \<longrightarrow>
           feq (total_change (ws2d y l ww) (pass_input ws2d y z env (length env - 1))) (Fin 0))
     \<and> (left = 0 \<longrightarrow> ww = ww0)"
proof (induction left arbitrary: k z ww0 cs)
  case 0
  then show ?case by simp
next
  case (Suc left)
  define ww' where "ww' = envelope_weights y p rws z"
  define znew where "znew = ws2d y l ww'"
  define c where "c = (Envelope k, l, ww')"
  show ?case
  proof (cases "feq (total_change znew z) (Fin 0)")
    case True
    with Suc.prems have e: "ww = ww'" "cs' = cs @ [c]"
      by (auto simp: Let_def ww'_def znew_def c_def)
    have "feq (total_change (ws2d y l ww') z) (Fin 0)"
      using True by (simp add: znew_def)
    then show ?thesis
      unfolding e
      by (intro exI[of _ "[c]"]) (simp add: c_def pass_input_def ww'_def)
  next
    case False
    with Suc.prems have rec: "envelope_loop ws2d y p l rws left (Suc k) znew ww' (cs @ [c]) = (ww, cs')"
      by (simp add: Let_def ww'_def znew_def c_def)
    from Suc.IH[OF rec] obtain env where
      cs': "cs' = (cs @ [c]) @ env" and len: "length env \<le> left"
      and tags: "map fst env = map Envelope [Suc k..<Suc k + length env]"
      and each: "\<forall>j < length env. fst (snd (env ! j)) = l
           \<and> snd (snd (env ! j)) = envelope_weights y p rws (pass_input ws2d y znew env j)
           \<and> (Suc j < length env \<longrightarrow>
                \<not> feq (total_change (ws2d y l (snd (snd (env ! j)))) (pass_input ws2d y znew env j)) (Fin 0))"
      and lst: "0 < left \<longrightarrow> env \<noteq> [] \<and> snd (snd (last env)) = ww"
      and conv: "length env < left \<longrightarrow>
           feq (total_change (ws2d y l ww) (pass_input ws2d y znew env (length env - 1))) (Fin 0)"
      and zero: "left = 0 \<longrightarrow> ww = ww0'" if "ww0' = ww'" for ww0'
      by blast
    have pi: "pass_input ws2d y z (c # env) (Suc j) = pass_input ws2d y znew env j" for j
      by (simp add: c_def pass_input_Cons znew_def)
    have 1: "cs' = cs @ (c # env)" using cs' by simp
    have 2: "length (c # env) \<le> Suc left" using len by simp
    have u: "[k..<k + length (c # env)] = k # [Suc k..<Suc k + length env]"
      by (subst upt_rec) simp
    have 3: "map fst (c # env) = map Envelope [k..<k + length (c # env)]"
      unfolding u using tags by (simp add: c_def)
    have 4: "fst (snd ((c # env) ! j)) = l
           \<and> snd (snd ((c # env) ! j)) = envelope_weights y p rws (pass_input ws2d y z (c # env) j)
           \<and> (Suc j < length (c # env) \<longrightarrow>
                \<not> feq (total_change (ws2d y l (snd (snd ((c # env) ! j)))) (pass_input ws2d y z (c # env) j)) (Fin 0))"
      if "j < length (c # env)" for j
    proof (cases j)
      case 0
      then show ?thesis
        using False by (simp add: c_def pass_input_def ww'_def znew_def)
    next
      case (Suc i)
      with that have "i < length env" by simp
      with each have "fst (snd (env ! i)) = l
           \<and> snd (snd (env ! i)) = envelope_weights y p rws (pass_input ws2d y znew env i)
           \<and> (Suc i < length env \<longrightarrow>
                \<not> feq (total_change (ws2d y l (snd (snd (env ! i)))) (pass_input ws2d y znew env i)) (Fin 0))"
        by blast
      then show ?thesis
        unfolding Suc pi by auto
    qed
    have 5: "c # env \<noteq> [] \<and> snd (snd (last (c # env))) = ww"
    proof (cases "left = 0")
      case True
      with len have "env = []" by simp
      moreover from True zero have "ww = ww'" by simp
      ultimately show ?thesis by (simp add: c_def)
    next
      case False
      with lst show ?thesis by simp
    qed
    have 6: "feq (total_change (ws2d y l ww) (pass_input ws2d y z (c # env) (length (c # env) - 1))) (Fin 0)"
      if "length (c # env) < Suc left"
    proof -
      from that have l: "length env < left" by simp
      then have "0 < left" by simp
      with lst have "env \<noteq> []" by simp
      then obtain i where i: "length env = Suc i"
        by (cases env) auto
      from conv l show ?thesis
        by (simp add: i pi)
    qed
    have 7: "Suc left = 0 \<longrightarrow> ww = ww0" by simp
    have 8: "0 < Suc left \<longrightarrow> c # env \<noteq> [] \<and> snd (snd (last (c # env))) = ww"
      using 5 by blast
    show ?thesis
      using 1 2 3 4 6 7 8 by (intro exI[of _ "c # env"]) blast
  qed
qed



section \<open>The score of a fit that is exact on the valid samples\<close>

lemma eig_value:
  assumes "0 < k" and "k < m"
  shows "\<exists>c. eig m k = Fin c \<and> c < 0"
proof -
  have m: "real m \<noteq> 0" using assms by simp
  have pos: "0 < real k * pi / real m" using assms by simp
  have "real k * pi / real m < pi"
    using assms by (simp add: divide_less_eq)
  then have "cos (real k * pi / real m) < cos 0"
    using pos by (intro cos_monotone_0_pi) simp_all
  then have "- 2 + 2 * cos (real k * pi / real m) < 0" by simp
  moreover have "eig m k = Fin (- 2 + 2 * cos (real k * pi / real m))"
    using m by (simp add: eig_def)
  ultimately show ?thesis by blast
qed

lemma d_eigs_real:
  assumes "d_eigs m = Inr d"
  shows "length d = m \<and> (\<forall>k<m. \<exists>c. d ! k = Fin c \<and> c \<noteq> 0)"
proof -
  from assms have m: "0 < m" and d: "d = (map (eig m) [0..<m])[0 := Fin (1 / 10 ^ 15)]"
    by (auto simp: d_eigs_def split: if_splits)
  have "\<exists>c. d ! k = Fin c \<and> c \<noteq> 0" if "k < m" for k
  proof (cases k)
    case 0
    have "(1::real) / 10 ^ 15 \<noteq> 0" by simp
    moreover have "d ! k = Fin (1 / 10 ^ 15)" using m 0 by (simp add: d)
    ultimately show ?thesis by blast
  next
    case (Suc j)
    with that eig_value[of k m] show ?thesis
      by (auto simp: d)
  qed
  then show ?thesis by (simp add: d)
qed

lemma exact_fit_score:
  assumes d: "d_eigs m = Inr d"
    and len: "length wt = m" "length y = m" "length z = m"
    and bin: "\<forall>i<m. wt ! i = Fin 0 \<or> wt ! i = Fin 1"
    and one: "\<exists>i<m. wt ! i = Fin 1"
    and fit: "\<forall>i<m. (wt ! i = Fin 1 \<longrightarrow> fsub (y ! i) (z ! i) = Fin 0)
                  \<and> (wt ! i = Fin 0 \<longrightarrow> isfinite (fsub (y ! i) (z ! i)))"
    and l: "0 < l"
  shows "gcv_score y d wt (Fin l) z = Fin 0"
proof -
  from d_eigs_real[OF d] have dl: "length d = m"
    and dc: "\<forall>k<m. \<exists>c. d ! k = Fin c \<and> c \<noteq> 0" by simp_all
  from dc have "\<exists>c. \<forall>k. k < m \<longrightarrow> d ! k = Fin (c k) \<and> c k \<noteq> 0"
    by (intro choice) blast
  then obtain c where c': "\<forall>k. k < m \<longrightarrow> d ! k = Fin (c k) \<and> c k \<noteq> 0" ..
  have c: "d ! k = Fin (c k) \<and> c k \<noteq> 0" if "k < m" for k
    using c' that by blast
  define w where "w k = (if wt ! k = Fin 1 then 1 else (0::real))" for k
  have w: "wt ! k = Fin (w k)" if "k < m" for k
    using bin that by (auto simp: w_def)
  define g where "g k = w k / (w k + l * (c k)\<^sup>2)" for k
  have den: "w k + l * (c k)\<^sup>2 > 0" if "k < m" for k
  proof -
    have "0 < l * (c k)\<^sup>2" using l c[OF that] by simp
    moreover have "0 \<le> w k" by (simp add: w_def)
    ultimately show ?thesis by linarith
  qed
  have gam: "gamma_arr wt d (Fin l) ! k = Fin (g k)" if "k < m" for k
  proof -
    have nz: "w k + l * (c k * c k) \<noteq> 0"
      using den[OF that] by (simp add: power2_eq_square)
    have "gamma_arr wt d (Fin l) ! k
        = fdiv (wt ! k) (fadd (wt ! k) (fmul (Fin l) (fpow2 (fmul (Fin (- 1)) (d ! k)))))"
      using that len dl by (simp add: gamma_arr_def)
    also have "\<dots> = fdiv (Fin (w k)) (Fin (w k + l * (c k * c k)))"
      by (simp add: w[OF that] c[OF that] fpow2_def)
    also have "\<dots> = Fin (g k)"
      using nz by (simp add: g_def power2_eq_square)
    finally show ?thesis .
  qed
  have glen: "length (gamma_arr wt d (Fin l)) = m"
    using len dl by (simp add: gamma_arr_def)
  have T: "fsum (gamma_arr wt d (Fin l)) = Fin (\<Sum>i<m. g i)"
    using fsum_nth_Fin[of "gamma_arr wt d (Fin l)" g] gam glen by simp
  have S: "fsum wt = Fin (\<Sum>i<m. w i)"
    using fsum_nth_Fin[of wt w] w len by simp
  have gle: "g k \<le> w k" if "k < m" for k
  proof (cases "wt ! k = Fin 1")
    case True
    then have "w k = 1" by (simp add: w_def)
    moreover have "0 < l * (c k)\<^sup>2" using l c[OF that] by simp
    ultimately show ?thesis by (simp add: g_def)
  next
    case False
    then show ?thesis by (simp add: g_def w_def)
  qed
  from one obtain j where j: "j < m" "wt ! j = Fin 1" by blast
  have glt: "g j < w j"
  proof -
    have "w j = 1" using j by (simp add: w_def)
    moreover have "0 < l * (c j)\<^sup>2" using l c[OF j(1)] by simp
    ultimately show ?thesis by (simp add: g_def)
  qed
  have TS: "(\<Sum>i<m. g i) < (\<Sum>i<m. w i)"
    by (rule sum_strict_mono_ex1) (use gle glt j in auto)
  have Spos: "0 < (\<Sum>i<m. w i)"
  proof -
    have "0 \<le> g i" if "i < m" for i
      using den[OF that] by (simp add: g_def w_def)
    then have "0 \<le> (\<Sum>i<m. g i)" by (intro sum_nonneg) simp
    with TS show ?thesis by linarith
  qed
  define Sv where "Sv = (\<Sum>i<m. w i)"
  define Tv where "Tv = (\<Sum>i<m. g i)"
  have dn: "Sv * ((1 - Tv / Sv) * (1 - Tv / Sv)) \<noteq> 0"
    using TS Spos by (simp add: Sv_def Tv_def)
  have res: "fpow2 (fmul (fpow_half (wt ! i)) (fsub (y ! i) (z ! i))) = Fin 0" if "i < m" for i
  proof (cases "wt ! i = Fin 1")
    case True
    with fit that show ?thesis by (simp add: fpow2_def)
  next
    case False
    with bin that have w0: "wt ! i = Fin 0" by blast
    with fit that obtain r where "fsub (y ! i) (z ! i) = Fin r"
      by (cases "fsub (y ! i) (z ! i)") auto
    with w0 show ?thesis by (simp add: fpow2_def)
  qed
  have "\<forall>x \<in> set (map fpow2 (map2 fmul (map fpow_half wt) (map2 fsub y z))). x = Fin 0"
    using res len by (auto simp: in_set_conv_nth)
  then have wsse: "fsum (map fpow2 (map2 fmul (map fpow_half wt) (map2 fsub y z))) = Fin 0"
    by (rule fsum_zeros)
  have Sn: "Sv \<noteq> 0" using Spos by (simp add: Sv_def)
  have "fmul (fsum wt) (fpow2 (fsub (Fin 1) (fdiv (fsum (gamma_arr wt d (Fin l))) (fsum wt))))
      = Fin (Sv * ((1 - Tv / Sv) * (1 - Tv / Sv)))"
    unfolding T S Sv_def[symmetric] Tv_def[symmetric] using Sn by (simp add: fpow2_def fsub_def)
  then have "gcv_score y d wt (Fin l) z = fdiv (Fin 0) (Fin (Sv * ((1 - Tv / Sv) * (1 - Tv / Sv))))"
    by (simp only: gcv_score_def Let_def wsse)
  moreover have "fdiv (Fin 0) (Fin (Sv * ((1 - Tv / Sv) * (1 - Tv / Sv)))) = Fin 0"
    by (simp only: fdiv.simps dn if_False div_0)
  ultimately show ?thesis
    by (rule trans)
qed

lemma exact_fit_score_lists:
  assumes d: "d_eigs (length y) = Inr d"
    and len: "length wt = length y" "length z = length y"
    and bin: "list_all (\<lambda>v. v = Fin 0 \<or> v = Fin 1) wt"
    and one: "Fin 1 \<in> set wt"
    and fit: "list_all (\<lambda>(v, r). (v = Fin 1 \<longrightarrow> r = Fin 0) \<and> (v = Fin 0 \<longrightarrow> isfinite r))
                (zip wt (map2 fsub y z))"
    and l: "0 < l"
  shows "gcv_score y d wt (Fin l) z = Fin 0"
proof (rule exact_fit_score[OF d len(1) refl len(2) _ _ _ l])
  show "\<forall>i<length y. wt ! i = Fin 0 \<or> wt ! i = Fin 1"
    using bin len by (simp add: list_all_length)
  show "\<exists>i<length y. wt ! i = Fin 1"
    using one len by (metis in_set_conv_nth)
  show "\<forall>i<length y. (wt ! i = Fin 1 \<longrightarrow> fsub (y ! i) (z ! i) = Fin 0)
                  \<and> (wt ! i = Fin 0 \<longrightarrow> isfinite (fsub (y ! i) (z ! i)))"
    using fit len by (simp add: list_all_length)
qed

lemma nan_score:
  assumes "NaN \<in> set (map2 fmul (map fpow_half wt) (map2 fsub y z))"
  shows "gcv_score y d wt l z = NaN"
proof -
  have "fpow2 NaN \<in> fpow2 ` set (map2 fmul (map fpow_half wt) (map2 fsub y z))"
    using assms by (rule imageI)
  moreover have "fpow2 NaN = NaN"
    by (simp add: fpow2_def)
  ultimately have "NaN \<in> set (map fpow2 (map2 fmul (map fpow_half wt) (map2 fsub y z)))"
    unfolding set_map by simp
  then have "fsum (map fpow2 (map2 fmul (map fpow_half wt) (map2 fsub y z))) = NaN"
    by (rule fsum_NaN)
  then show ?thesis
    by (simp add: gcv_score_def Let_def)
qed

section \<open>A run of the entry point\<close>


lemma optimise_Inr:
  assumes "optimise ws2d y w n d p llas robust = Inr r"
  obtains st rws ww env where
    "robust_loop ws2d y w n d llas robust = Inr st"
    "select_lopt robust (robust_gcv st) = Inr (lopt r)"
    "robust_weights st = Some rws"
    "envelope_loop ws2d y p (lopt r) rws 10 0 (replicate (length y) (Fin 0))
       (replicate (length y) (Fin 0)) (calls st) = (ww, calls st @ env)"
    "history r = robust_gcv st" "rweights r = r_weights st"
    "trace r = calls st @ env @ [(Final, lopt r, ww)]"
    "out r = ws2d y (lopt r) ww"
proof -
  from assms obtain st where st: "robust_loop ws2d y w n d llas robust = Inr st"
    by (auto simp: optimise_def split: sum.splits)
  with assms obtain l where l: "select_lopt robust (robust_gcv st) = Inr l"
    by (auto simp: optimise_def split: sum.splits)
  with assms st obtain rws where rws: "robust_weights st = Some rws"
    by (auto simp: optimise_def split: option.splits)
  obtain ww cs where el: "envelope_loop ws2d y p l rws 10 0 (replicate (length y) (Fin 0))
       (replicate (length y) (Fin 0)) (calls st) = (ww, cs)"
    by (cases "envelope_loop ws2d y p l rws 10 0 (replicate (length y) (Fin 0))
       (replicate (length y) (Fin 0)) (calls st)") blast
  from envelope_loop_trace[OF el] obtain env where env: "cs = calls st @ env"
    by blast
  have r: "r = \<lparr>out = ws2d y l ww, lopt = l, history = robust_gcv st,
                rweights = r_weights st, trace = cs @ [(Final, l, ww)]\<rparr>"
    using assms st l rws el by (simp add: optimise_def Let_def)
  show thesis
    by (rule that[of st rws ww env]) (use st l rws el env in \<open>simp_all add: r\<close>)
qed

lemma ws2dwcvp_run_Inr:
  assumes "ws2dwcvp_run ws2d y nodata p llas robust = Inr r" and "5 < n_valid y nodata"
  obtains d r0 where
    "d_eigs (length y) = Inr d"
    "optimise ws2d y (validity y nodata) (Fin (real (n_valid y nodata))) d p llas robust = Inr r0"
    "out r = map (\<lambda>v. to_int16 (fround v)) (out r0)"
    "lopt r = lopt r0" "history r = history r0" "rweights r = rweights r0" "trace r = trace r0"
proof -
  from assms obtain d where d: "d_eigs (length y) = Inr d"
    by (auto simp: ws2dwcvp_run_def Let_def split: sum.splits)
  with assms obtain r0 where
    r0: "optimise ws2d y (validity y nodata) (Fin (real (n_valid y nodata))) d p llas robust = Inr r0"
    by (auto simp: ws2dwcvp_run_def Let_def split: sum.splits)
  have "r = \<lparr>out = map (\<lambda>v. to_int16 (fround v)) (out r0), lopt = lopt r0,
              history = history r0, rweights = rweights r0, trace = trace r0\<rparr>"
    using assms d r0 by (simp add: ws2dwcvp_run_def Let_def)
  then show thesis
    by (intro that[OF d r0]) simp_all
qed

lemma scan_filter_env:
  assumes "map fst env = map Envelope ks"
  shows "filter (\<lambda>c. fst c = Scan k) (env @ [(Final, l, ww)]) = []"
proof -
  have "fst c \<noteq> Scan k" if "c \<in> set env" for c
  proof -
    from that have "fst c \<in> set (map fst env)" by simp
    then show ?thesis unfolding assms by auto
  qed
  then show ?thesis by (auto simp: filter_empty_conv)
qed

lemma scan_grid_trace:
  assumes "map fst env = map Envelope ks"
  shows "scan_grid k (cs @ env @ [(Final, l, ww)]) = scan_grid k cs"
    and "scan_weights k (cs @ env @ [(Final, l, ww)]) = scan_weights k cs"
  using scan_filter_env[OF assms, of k l ww]
  by (simp_all add: scan_grid_def scan_weights_def)


lemma run_loop:
  assumes "ws2dwcvp_run ws2d y nodata p llas robust = Inr r" and "5 < n_valid y nodata"
  obtains d st env ww rws where
    "d_eigs (length y) = Inr d"
    "loop_upto ws2d y (validity y nodata) (Fin (real (n_valid y nodata))) d llas robust (r_its robust) = Inr st"
    "history r = robust_gcv st" "rweights r = r_weights st"
    "select_lopt robust (robust_gcv st) = Inr (lopt r)"
    "robust_weights st = Some rws"
    "envelope_loop ws2d y p (lopt r) rws 10 0 (replicate (length y) (Fin 0))
       (replicate (length y) (Fin 0)) (calls st) = (ww, calls st @ env)"
    "trace r = calls st @ env @ [(Final, lopt r, ww)]"
    "out r = map (\<lambda>v. to_int16 (fround v)) (ws2d y (lopt r) ww)"
proof -
  from assms obtain d r0 where d: "d_eigs (length y) = Inr d"
    and r0: "optimise ws2d y (validity y nodata) (Fin (real (n_valid y nodata))) d p llas robust = Inr r0"
    and eqs: "out r = map (\<lambda>v. to_int16 (fround v)) (out r0)"
      "lopt r = lopt r0" "history r = history r0" "rweights r = rweights r0" "trace r = trace r0"
    by (rule ws2dwcvp_run_Inr)
  from r0 obtain st rws ww env where
    "robust_loop ws2d y (validity y nodata) (Fin (real (n_valid y nodata))) d llas robust = Inr st"
    "select_lopt robust (robust_gcv st) = Inr (lopt r0)"
    "robust_weights st = Some rws"
    "envelope_loop ws2d y p (lopt r0) rws 10 0 (replicate (length y) (Fin 0))
       (replicate (length y) (Fin 0)) (calls st) = (ww, calls st @ env)"
    "history r0 = robust_gcv st" "rweights r0 = r_weights st"
    "trace r0 = calls st @ env @ [(Final, lopt r0, ww)]"
    "out r0 = ws2d y (lopt r0) ww"
    by (rule optimise_Inr)
  then show thesis
    using d eqs by (intro that[of d st rws ww env]) (simp_all add: robust_loop_upto)
qed

lemma run_scan_calls:
  assumes "ws2dwcvp_run ws2d y nodata p llas robust = Inr r" and "5 < n_valid y nodata"
  obtains d st where
    "d_eigs (length y) = Inr d"
    "loop_upto ws2d y (validity y nodata) (Fin (real (n_valid y nodata))) d llas robust (r_its robust) = Inr st"
    "history r = robust_gcv st"
    "\<forall>k. scan_grid k (trace r) = scan_grid k (calls st)"
    "\<forall>k. scan_weights k (trace r) = scan_weights k (calls st)"
proof -
  from assms obtain d st env ww rws where d: "d_eigs (length y) = Inr d"
    and st: "loop_upto ws2d y (validity y nodata) (Fin (real (n_valid y nodata))) d llas robust (r_its robust) = Inr st"
    and h: "history r = robust_gcv st"
    and el: "envelope_loop ws2d y p (lopt r) rws 10 0 (replicate (length y) (Fin 0))
       (replicate (length y) (Fin 0)) (calls st) = (ww, calls st @ env)"
    and tr: "trace r = calls st @ env @ [(Final, lopt r, ww)]"
    by (rule run_loop)
  from envelope_loop_trace[OF el] have "map fst env = map Envelope [0..<0 + length env]"
    by auto
  from scan_grid_trace[OF this] show thesis
    using d st h by (intro that[of d st]) (simp_all add: tr)
qed

lemma history_entry:
  assumes "ws2dwcvp_run ws2d y nodata p llas robust = Inr r" and "5 < n_valid y nodata"
    and "d_eigs (length y) = Inr d" and "k < length (history r)"
  shows "history r ! k =
           best_from ws2d y d (scan_weights k (trace r)) (incumbent k (history r))
             (scan_grid k (trace r))
         \<and> (history r ! k = incumbent k (history r)
            \<or> flt (fst (history r ! k)) (fst (incumbent k (history r))))"
proof -
  from assms(1,2) obtain d' st where d': "d_eigs (length y) = Inr d'"
    and st: "loop_upto ws2d y (validity y nodata) (Fin (real (n_valid y nodata))) d' llas robust (r_its robust) = Inr st"
    and h: "history r = robust_gcv st"
    and g: "\<forall>k. scan_grid k (trace r) = scan_grid k (calls st)"
    and w: "\<forall>k. scan_weights k (trace r) = scan_weights k (calls st)"
    by (rule run_scan_calls)
  have dd: "d' = d" using d' assms(3) by simp
  from loop_inv_holds[OF st] assms(4) have
    e: "history r ! k = best_from ws2d y d (scan_weights k (trace r)) (incumbent k (history r))
             (scan_grid k (trace r))"
    by (simp add: loop_inv_def h g w dd)
  from best_from_result[OF refl e] have
    "history r ! k = incumbent k (history r)
       \<or> flt (fst (history r ! k)) (fst (incumbent k (history r)))"
    by auto
  with e show ?thesis by blast
qed


section \<open>Worked runs\<close>

lemma median_zeros7: "median [Fin 0, Fin 0, Fin 0, Fin 0, Fin 0, Fin 0, Fin 0] = Fin 0"
  by (simp add: median_def fsort_def fle_def feq_def)

lemma validity_a: "validity series_a (Fin (- 9999)) = weights_a" "n_valid series_a (Fin (- 9999)) = 6"
  by (simp_all add: validity_def n_valid_def invalid_def feq_def)

lemma exA_score0:
  assumes "d_eigs (length series_a) = Inr d"
  shows "gcv_score series_a d weights_a (Fin 1) series_a = Fin 0"
  by (rule exact_fit_score_lists[OF assms]) (simp_all add: fsub_def)

lemma exA_score_nan: "gcv_score series_a d nan7 (Fin 1) series_a = NaN"
  by (rule nan_score) simp

lemma exA_reweight:
  assumes "rw = ones7 \<or> rw = nan7"
  shows "reweight series_a d wt s n rw series_a = nan7"
proof -
  have "reweight series_a d wt s n rw series_a
      = map (\<lambda>r. if fgt r (Fin 0) then Fin 1 else NaN) [Fin 0, Fin 0, Fin 0, Fin 0, Fin 0, Fin 0, Fin 0]"
  proof (rule reweight_degenerate)
    show "[Fin 0, Fin 0, Fin 0, Fin 0, Fin 0, Fin 0, Fin 0] = map2 fsub series_a series_a"
      by (simp add: fsub_def)
    show "[Fin 0, Fin 0, Fin 0, Fin 0, Fin 0, Fin 0, Fin 0]
        = map fst (filter (\<lambda>(r, v). fne v (Fin 0)) (zip [Fin 0, Fin 0, Fin 0, Fin 0, Fin 0, Fin 0, Fin 0] rw))"
      using assms by (auto simp: fne_def feq_def)
    show "median (map (\<lambda>r. fabs (fsub r (median [Fin 0, Fin 0, Fin 0, Fin 0, Fin 0, Fin 0, Fin 0])))
             [Fin 0, Fin 0, Fin 0, Fin 0, Fin 0, Fin 0, Fin 0]) = Fin 0"
      by (simp add: median_zeros7 fsub_def)
    show "list_all (\<lambda>r. r = Fin 0 \<or> fgt r (Fin 0)) [Fin 0, Fin 0, Fin 0, Fin 0, Fin 0, Fin 0, Fin 0]"
      by simp
  qed
  then show ?thesis by (simp add: fgt_def)
qed

lemma init_state_7:
  "init_state 7 = \<lparr>r_weights = ones7, robust_weights = None, robust_gcv = [],
      gcv_temp = (Fin (10 ^ 15), Fin 0), tempNDVI_arr = None, calls = []\<rparr>"
  by (simp add: init_state_def eval_nat_numeral)

lemma exA_iter0:
  assumes "d_eigs (length series_a) = Inr d"
  shows "robust_iter ident series_a weights_a (Fin 6) d [Fin 0] True 0 (init_state 7) = Inr (state_a 1)"
  by (simp add: robust_iter_def smoothing_grid_def truthy_def fne_def feq_def init_state_7
      scan_step_eq exA_score0[OF assms] exA_reweight Let_def)

lemma exA_iter:
  assumes "0 < k"
  shows "robust_iter ident series_a weights_a (Fin 6) d [Fin 0] True k (state_a k) = Inr (state_a (Suc k))"
  using assms
  by (simp add: robust_iter_def smoothing_grid_def truthy_def fne_def feq_def
      scan_step_eq exA_score_nan exA_reweight Let_def nth_Cons' replicate_append_same)

lemma upt_4: "[0..<4] = [0, 1, 2, 3]"
  by (simp add: eval_nat_numeral upt_rec)

lemma exA_loop:
  assumes "d_eigs (length series_a) = Inr d"
  shows "robust_loop ident series_a weights_a (Fin 6) d [Fin 0] True = Inr final_state_a"
proof -
  have len: "length series_a = 7" by simp
  have r: "r_its True = 4" by (simp add: r_its_def)
  note 0 = exA_iter0[OF assms]
  have 1: "robust_iter ident series_a weights_a (Fin 6) d [Fin 0] True 1 (state_a 1) = Inr (state_a 2)"
    using exA_iter[of 1 d] by (simp add: eval_nat_numeral)
  have 2: "robust_iter ident series_a weights_a (Fin 6) d [Fin 0] True 2 (state_a 2) = Inr (state_a 3)"
    using exA_iter[of 2 d] by (simp add: eval_nat_numeral)
  have 3: "robust_iter ident series_a weights_a (Fin 6) d [Fin 0] True 3 (state_a 3) = Inr (state_a 4)"
    using exA_iter[of 3 d] by (simp add: eval_nat_numeral)
  have 4: "state_a 4 = final_state_a"
    by (simp add: eval_nat_numeral upt_rec)
  show ?thesis
    by (simp only: robust_loop_def r len upt_4 run_iters.simps 0 1 2 3 4 sum.case)
qed

lemma exA_envelope:
  "envelope_loop ident series_a (Fin (9 / 10)) (Fin 1) nan7 10 0
     (replicate (length series_a) (Fin 0)) ww cs
     = (nan7, cs @ [(Envelope 0, Fin 1, nan7), (Envelope 1, Fin 1, nan7)])"
  by (simp add: eval_nat_numeral envelope_weights_def total_change_def Let_def fsub_def fgt_def feq_def)

lemma rint_int: "rint (of_int k) = k"
  by (simp add: rint_def Let_def)

lemma exA_run:
  "ws2dwcvp_run ident series_a (Fin (- 9999)) (Fin (9 / 10)) [Fin 0] True = Inr run_a"
proof -
  obtain d where d: "d_eigs (length series_a) = Inr d"
    by (simp add: d_eigs_def)
  have sel: "select_lopt True (robust_gcv final_state_a) = Inr (Fin 1)"
    by (simp add: select_lopt_def)
  have rwq: "robust_weights final_state_a = Some nan7"
    by simp
  have "optimise ident series_a weights_a (Fin 6) d (Fin (9 / 10)) [Fin 0] True
      = Inr \<lparr>out = series_a, lopt = Fin 1, history = [record_a, record_a, record_a, record_a],
             rweights = nan7, trace = trace_a\<rparr>"
    apply (simp only: optimise_def exA_loop[OF d] sum.case sel rwq option.case Let_def
        exA_envelope prod.case)
    apply simp
    done
  moreover have "5 < n_valid series_a (Fin (- 9999))"
    by (simp add: validity_a)
  moreover have "real (n_valid series_a (Fin (- 9999))) = 6"
    by (simp add: validity_a)
  ultimately show ?thesis
    apply (simp only: ws2dwcvp_run_def Let_def d sum.case validity_a if_True)
    apply (simp add: rint_def trunc0_def Let_def)
    done
qed

lemma validity_b: "validity series_b (Fin 255) = weights_a" "n_valid series_b (Fin 255) = 6"
  by (simp_all add: validity_def n_valid_def invalid_def feq_def)

lemma median_b: "median [Fin 0, Fin 0, Fin 0, Fin 0, Fin 0, Fin 0, Fin 248] = Fin 0"
  by (simp add: median_def fsort_def fle_def feq_def)

lemma exB_score0:
  assumes "d_eigs (length series_b) = Inr d"
  shows "gcv_score series_b d weights_a (Fin 1) [Fin 1, Fin 2, Fin 3, Fin 4, Fin 5, Fin 6, Fin 7] = Fin 0"
  by (rule exact_fit_score_lists[OF assms]) (simp_all add: fsub_def)

lemma exB_score_nan:
  "gcv_score series_b d weights_b (Fin 1) [Fin 1, Fin 2, Fin 3, Fin 4, Fin 5, Fin 6, Fin 7] = NaN"
  by (rule nan_score) simp

lemma exB_reweight:
  assumes "rw = ones7 \<or> rw = rweights_b"
  shows "reweight series_b d wt s n rw [Fin 1, Fin 2, Fin 3, Fin 4, Fin 5, Fin 6, Fin 7] = rweights_b"
proof -
  have "reweight series_b d wt s n rw [Fin 1, Fin 2, Fin 3, Fin 4, Fin 5, Fin 6, Fin 7]
      = map (\<lambda>r. if fgt r (Fin 0) then Fin 1 else NaN)
          [Fin 0, Fin 0, Fin 0, Fin 0, Fin 0, Fin 0, Fin 248]"
  proof (rule reweight_degenerate)
    show "[Fin 0, Fin 0, Fin 0, Fin 0, Fin 0, Fin 0, Fin 248]
        = map2 fsub series_b [Fin 1, Fin 2, Fin 3, Fin 4, Fin 5, Fin 6, Fin 7]"
      by (simp add: fsub_def)
    show "[Fin 0, Fin 0, Fin 0, Fin 0, Fin 0, Fin 0, Fin 248]
        = map fst (filter (\<lambda>(r, v). fne v (Fin 0))
            (zip [Fin 0, Fin 0, Fin 0, Fin 0, Fin 0, Fin 0, Fin 248] rw))"
      using assms by (auto simp: fne_def feq_def)
    show "median (map (\<lambda>r. fabs (fsub r (median [Fin 0, Fin 0, Fin 0, Fin 0, Fin 0, Fin 0, Fin 248])))
             [Fin 0, Fin 0, Fin 0, Fin 0, Fin 0, Fin 0, Fin 248]) = Fin 0"
      by (simp add: median_b fsub_def)
    show "list_all (\<lambda>r. r = Fin 0 \<or> fgt r (Fin 0))
            [Fin 0, Fin 0, Fin 0, Fin 0, Fin 0, Fin 0, Fin 248]"
      by (simp add: fgt_def)
  qed
  then show ?thesis by (simp add: fgt_def)
qed

lemma exB_iter0:
  assumes "d_eigs (length series_b) = Inr d"
  shows "robust_iter line7 series_b weights_a (Fin 6) d [Fin 0] True 0 (init_state 7) = Inr (state_b 1)"
  by (simp add: robust_iter_def smoothing_grid_def truthy_def fne_def feq_def init_state_7
      scan_step_eq exB_score0[OF assms] exB_reweight Let_def)

lemma exB_iter:
  assumes "0 < k"
  shows "robust_iter line7 series_b weights_a (Fin 6) d [Fin 0] True k (state_b k) = Inr (state_b (Suc k))"
  using assms
  by (simp add: robust_iter_def smoothing_grid_def truthy_def fne_def feq_def
      scan_step_eq exB_score_nan exB_reweight Let_def nth_Cons' replicate_append_same)

lemma exB_loop:
  assumes "d_eigs (length series_b) = Inr d"
  shows "robust_loop line7 series_b weights_a (Fin 6) d [Fin 0] True = Inr final_state_b"
proof -
  have len: "length series_b = 7" by simp
  have r: "r_its True = 4" by (simp add: r_its_def)
  note 0 = exB_iter0[OF assms]
  have 1: "robust_iter line7 series_b weights_a (Fin 6) d [Fin 0] True 1 (state_b 1) = Inr (state_b 2)"
    using exB_iter[of 1 d] by (simp add: eval_nat_numeral)
  have 2: "robust_iter line7 series_b weights_a (Fin 6) d [Fin 0] True 2 (state_b 2) = Inr (state_b 3)"
    using exB_iter[of 2 d] by (simp add: eval_nat_numeral)
  have 3: "robust_iter line7 series_b weights_a (Fin 6) d [Fin 0] True 3 (state_b 3) = Inr (state_b 4)"
    using exB_iter[of 3 d] by (simp add: eval_nat_numeral)
  have 4: "state_b 4 = final_state_b"
    by (simp add: eval_nat_numeral upt_rec)
  show ?thesis
    by (simp only: robust_loop_def r len upt_4 run_iters.simps 0 1 2 3 4 sum.case)
qed

lemma exB_envelope:
  "envelope_loop line7 series_b (Fin (9 / 10)) (Fin 1) weights_b 10 0
     (replicate (length series_b) (Fin 0)) ww cs
     = (weights_b, cs @ [(Envelope 0, Fin 1, weights_b), (Envelope 1, Fin 1, weights_b)])"
  by (simp add: eval_nat_numeral envelope_weights_def total_change_def Let_def fsub_def fgt_def feq_def)

lemma exB_run:
  "ws2dwcvp_run line7 series_b (Fin 255) (Fin (9 / 10)) [Fin 0] True = Inr run_b"
proof -
  obtain d where d: "d_eigs (length series_b) = Inr d"
    by (simp add: d_eigs_def)
  have sel: "select_lopt True (robust_gcv final_state_b) = Inr (Fin 1)"
    by (simp add: select_lopt_def)
  have rwq: "robust_weights final_state_b = Some weights_b"
    by simp
  have "optimise line7 series_b weights_a (Fin 6) d (Fin (9 / 10)) [Fin 0] True
      = Inr \<lparr>out = [Fin 1, Fin 2, Fin 3, Fin 4, Fin 5, Fin 6, Fin 7], lopt = Fin 1,
             history = [record_a, record_a, record_a, record_a],
             rweights = rweights_b, trace = trace_b\<rparr>"
    apply (simp only: optimise_def exB_loop[OF d] sum.case sel rwq option.case Let_def
        exB_envelope prod.case)
    apply simp
    done
  moreover have "5 < n_valid series_b (Fin 255)"
    by (simp add: validity_b)
  moreover have "real (n_valid series_b (Fin 255)) = 6"
    by (simp add: validity_b)
  ultimately show ?thesis
    apply (simp only: ws2dwcvp_run_def Let_def d sum.case validity_b if_True)
    apply (simp add: rint_def trunc0_def Let_def)
    done
qed











lemma d_eigs_7: "d_eigs 7 = Inr eigs7"
  by (simp add: d_eigs_def)

lemma d_eigs_a: "d_eigs (length series_a) = Inr eigs7"
proof -
  have "length series_a = 7" by simp
  then show ?thesis by (simp only: d_eigs_7)
qed

lemma d_eigs_b: "d_eigs (length series_b) = Inr eigs7"
proof -
  have "length series_b = 7" by simp
  then show ?thesis by (simp only: d_eigs_7)
qed

lemma d_eigs_c: "d_eigs (length series_c) = Inr eigs7"
proof -
  have "length series_c = 7" by simp
  then show ?thesis by (simp only: d_eigs_7)
qed

lemma n_valid_a: "5 < n_valid series_a (Fin (- 9999))"
  by (simp add: validity_a)


section \<open>The claims\<close>

subsection \<open>C1: the fallback for short series\<close>

lemma to_int16_exact:
  assumes "int16_exact v"
  shows "map_option of_int16 (to_int16 v) = Some v"
proof (cases v)
  case (Fin a)
  with assms have a: "a = of_int \<lfloor>a\<rfloor>" and lo: "- 32768 \<le> \<lfloor>a\<rfloor>" and hi: "\<lfloor>a\<rfloor> \<le> 32767"
    by (simp_all add: int16_exact_def)
  have t: "trunc0 a = \<lfloor>a\<rfloor>"
    using a by (metis ceiling_of_int trunc0_def)
  have "sint (word_of_int \<lfloor>a\<rfloor> :: 16 word) = \<lfloor>a\<rfloor>"
    using lo hi by (simp add: sint_sbintrunc' signed_take_bit_int_eq_self)
  then show ?thesis
    using Fin a t lo hi by (simp add: of_int16_def)
qed (use assms in \<open>simp_all add: int16_exact_def\<close>)

text \<open>
  Claim C1, as the code has it. For a series that is not empty and has at most 5 valid
  samples, no call of the smoother is made, the penalty reported is 0 and the output array
  holds the input series converted to \<^verbatim>\<open>int16\<close>, cell by cell. A cell reads back as its sample
  where the sample is an integer from \<open>-32768\<close> to \<open>32767\<close>.
\<close>

theorem fallback_copies_cast_input:
  assumes "n_valid y nodata \<le> 5" and "y \<noteq> []"
  shows "ws2dwcvp_run ws2d y nodata p llas robust =
           Inr \<lparr>out = map to_int16 y, lopt = Fin 0, history = [], rweights = [], trace = []\<rparr>
         \<and> ws2dwcvp ws2d y nodata p llas robust = Inr (map to_int16 y, Fin 0)
         \<and> (\<forall>i < length y. int16_exact (y ! i) \<longrightarrow>
              map_option of_int16 (map to_int16 y ! i) = Some (y ! i))"
  using assms
  by (simp add: ws2dwcvp_def ws2dwcvp_run_def d_eigs_def Let_def to_int16_exact)

theorem fallback_copies_cast_input_witness:
  "n_valid [Fin (- 9999), Fin 3] (Fin (- 9999)) \<le> 5 \<and> [Fin (- 9999), Fin 3] \<noteq> []
   \<and> ws2dwcvp (\<lambda>y l w. y) [Fin (- 9999), Fin 3] (Fin (- 9999)) (Fin (9 / 10)) [Fin 0] True
       = Inr ([Some (word_of_int (- 9999)), Some 3], Fin 0)
   \<and> int16_exact (Fin 3)"
proof -
  have n: "n_valid [Fin (- 9999), Fin 3] (Fin (- 9999)) \<le> 5"
    by (simp add: n_valid_def)
  have ne: "[Fin (- 9999), Fin 3] \<noteq> []"
    by simp
  show ?thesis
    using n fallback_copies_cast_input [OF n ne, of "\<lambda>y l w. y" "Fin (9 / 10)" "[Fin 0]" True]
    by (simp add: trunc0_def int16_exact_def)
qed

text \<open>
  Claim C1 as stated fails: the series \<open>[1.5]\<close> has one valid sample and comes back as the
  \<^verbatim>\<open>int16\<close> value 1.
\<close>

theorem fallback_not_identity:
  "n_valid [Fin (3 / 2)] (Fin (- 9999)) \<le> 5
   \<and> ws2dwcvp (\<lambda>y l w. y) [Fin (3 / 2)] (Fin (- 9999)) (Fin (9 / 10)) [Fin 0] False
       = Inr ([Some 1], Fin 0)
   \<and> of_int16 1 \<noteq> Fin (3 / 2)"
  by (simp add: ws2dwcvp_def ws2dwcvp_run_def d_eigs_def Let_def n_valid_def invalid_def
      feq_def trunc0_def of_int16_def)

subsection \<open>C2: the penalty reported\<close>




subsection \<open>C3: the record of the best score is not reset\<close>

text \<open>
  Claim C3, as the code has it. The record of the best score is set once, on line 61,
  before the robust loop. The entry that iteration \<open>k\<close> appends to \<open>robust_gcv\<close> is what the
  scan of the candidates of iteration \<open>k\<close> makes of the record the iteration starts from:
  the record of line 61 for \<open>k = 0\<close>, the entry of iteration \<open>k - 1\<close> otherwise. So an entry
  is the entry before it, or its score is strictly less than that one's.
\<close>

theorem history_entry_starts_from_previous:
  assumes "ws2dwcvp_run ws2d y nodata p llas robust = Inr r" and "5 < n_valid y nodata"
    and "d_eigs (length y) = Inr d" and "k < length (history r)"
  shows "history r ! k =
           best_from ws2d y d (scan_weights k (trace r)) (incumbent k (history r))
             (scan_grid k (trace r))
         \<and> (history r ! k = incumbent k (history r)
            \<or> flt (fst (history r ! k)) (fst (incumbent k (history r))))"
  using assms by (rule history_entry)

text \<open>In the same run the entry of iteration 1 is the scan of its grid started from the entry of iteration 0.\<close>

theorem history_entry_starts_from_previous_witness:
  "ws2dwcvp_run ident series_a (Fin (- 9999)) (Fin (9 / 10)) [Fin 0] True = Inr run_a
   \<and> 5 < n_valid series_a (Fin (- 9999)) \<and> d_eigs (length series_a) = Inr eigs7
   \<and> 1 < length (history run_a)
   \<and> history run_a ! 1 = best_from ident series_a eigs7 nan7 (history run_a ! 0) [Fin 1]
   \<and> history run_a ! 1 = history run_a ! 0"
proof -
  have k: "1 < length (history run_a)" by simp
  from history_entry_starts_from_previous[OF exA_run n_valid_a d_eigs_a k]
  have "history run_a ! 1 = best_from ident series_a eigs7 (scan_weights 1 (trace run_a))
          (incumbent 1 (history run_a)) (scan_grid 1 (trace run_a))"
    by (rule conjunct1)
  moreover have "scan_weights 1 (trace run_a) = nan7" "scan_grid 1 (trace run_a) = [Fin 1]"
    "incumbent 1 (history run_a) = history run_a ! 0"
    by (simp_all add: scan_weights_def scan_grid_def incumbent_def)
  ultimately have "history run_a ! 1 = best_from ident series_a eigs7 nan7 (history run_a ! 0) [Fin 1]"
    by (simp only:)
  then show ?thesis
    using exA_run n_valid_a d_eigs_a by simp
qed

text \<open>
  Claim C3 as stated fails. In this run iteration 1 scans the penalty 1 with weights that
  are all NaN, so the score of its only candidate is NaN. Started from the record of line
  61, that scan ends with \<open>(1e15, 0)\<close>; the entry recorded for iteration 1 is \<open>(0, 1)\<close>, the best
  of iteration 0, carried over.
\<close>

theorem record_not_reset_between_iterations:
  "ws2dwcvp_run ident series_a (Fin (- 9999)) (Fin (9 / 10)) [Fin 0] True = Inr run_a
   \<and> history run_a ! 0 = (Fin 0, Fin 1) \<and> history run_a ! 1 = (Fin 0, Fin 1)
   \<and> scan_grid 1 (trace run_a) = [Fin 1] \<and> scan_weights 1 (trace run_a) = nan7
   \<and> cand_score ident series_a eigs7 nan7 (Fin 1) = NaN
   \<and> best_from ident series_a eigs7 nan7 (Fin (10 ^ 15), Fin 0) [Fin 1] = (Fin (10 ^ 15), Fin 0)"
  using exA_run
  by (simp add: scan_weights_def scan_grid_def best_from_def cand_score_def exA_score_nan)

subsection \<open>C4: what a scan selects\<close>




subsection \<open>C5: the grid of the later iterations\<close>



subsection \<open>C6: the weights passed to the smoother\<close>




subsection \<open>C7: the weights of invalid samples after an update\<close>

text \<open>
  Claim C7, as the code has it. An update of the robustness weights (lines 94 to 107) is
  followed by \<open>robust_weights = w * r_weights\<close> (line 109). There the weight of a sample
  whose validity weight is 0 is 0 or NaN, and it is 0 when the new robustness weight of
  the sample is finite. The array \<open>r_weights\<close> itself is not masked by \<open>w\<close>.
\<close>

theorem combined_weight_zero_or_nan_after_update:
  assumes "robust_iter ws2d y w n d llas True it st = Inr st'"
    and "i < length w" and "i < length (r_weights st')" and "w ! i = Fin 0"
  shows "robust_weights st' = Some (map2 fmul w (r_weights st'))
         \<and> (map2 fmul w (r_weights st') ! i = Fin 0 \<or> map2 fmul w (r_weights st') ! i = NaN)
         \<and> (isfinite (r_weights st' ! i) \<longrightarrow> map2 fmul w (r_weights st') ! i = Fin 0)"
proof -
  from assms(1) have "robust_weights st' = Some (map2 fmul w (r_weights st'))"
    by (rule robust_iter_Inr)
  moreover have "map2 fmul w (r_weights st') ! i = fmul (Fin 0) (r_weights st' ! i)"
    using assms by simp
  ultimately show ?thesis
    using fmul_zero_cases[of "r_weights st' ! i"] fmul_zero_finite[of "r_weights st' ! i"] by simp
qed

text \<open>
  The first iteration of the robust run of a smoother that returns the line \<open>1, ..., 7\<close>, on
  the series \<open>1, 2, 3, 4, 5, 6, 255\<close> with the sentinel 255.
\<close>

theorem combined_weight_zero_or_nan_after_update_witness:
  "robust_iter line7 series_b weights_a (Fin 6) eigs7 [Fin 0] True 0 (init_state 7) = Inr (state_b 1)
   \<and> 6 < length weights_a \<and> 6 < length (r_weights (state_b 1)) \<and> weights_a ! 6 = Fin 0
   \<and> isfinite (r_weights (state_b 1) ! 6)
   \<and> robust_weights (state_b 1) = Some (map2 fmul weights_a (r_weights (state_b 1)))
   \<and> map2 fmul weights_a (r_weights (state_b 1)) ! 6 = Fin 0"
proof -
  note it = exB_iter0[OF d_eigs_b]
  have i: "6 < length weights_a" "6 < length (r_weights (state_b 1))" "weights_a ! 6 = Fin 0"
    by simp_all
  from combined_weight_zero_or_nan_after_update[OF it i]
  show ?thesis
    using it by simp
qed

text \<open>
  Claim C7 as stated fails. In that run the invalid sample of index 6 has the residual
  \<open>255 - 7\<close>, which is positive, so every update sets its robustness weight to 1: the array
  \<open>r_weights\<close> ends with the weight 1 at index 6.
\<close>

theorem robustness_weight_one_at_invalid_sample:
  "ws2dwcvp_run line7 series_b (Fin 255) (Fin (9 / 10)) [Fin 0] True = Inr run_b
   \<and> invalid (Fin 255) (series_b ! 6)
   \<and> validity series_b (Fin 255) ! 6 = Fin 0
   \<and> rweights run_b ! 6 = Fin 1"
  using exB_run by (simp add: invalid_def feq_def validity_b)

subsection \<open>C8: a positive residual gives the weight 1\<close>

text \<open>
  Claim C8. After an iteration of a robust run, a sample whose residual against the
  selected curve \<open>tempNDVI_arr\<close> is strictly positive has the robustness weight 1.
\<close>

theorem positive_residual_weight_one:
  assumes "robust_iter ws2d y w n d llas True it st = Inr st'"
    and "tempNDVI_arr st' = Some t"
    and "i < length y" and "i < length t"
    and "fgt (fsub (y ! i) (t ! i)) (Fin 0)"
  shows "r_weights st' ! i = Fin 1"
proof -
  from assms(1) obtain t' where "tempNDVI_arr st' = Some t'"
    and "r_weights st' = reweight y d (map2 fmul w (r_weights st)) (snd (gcv_temp st')) n (r_weights st) t'"
    by (rule robust_iter_Inr) blast
  with assms show ?thesis
    by (simp add: reweight_positive)
qed

text \<open>The sample of index 6 in the first iteration of that run.\<close>

theorem positive_residual_weight_one_witness:
  "robust_iter line7 series_b weights_a (Fin 6) eigs7 [Fin 0] True 0 (init_state 7) = Inr (state_b 1)
   \<and> tempNDVI_arr (state_b 1) = Some [Fin 1, Fin 2, Fin 3, Fin 4, Fin 5, Fin 6, Fin 7]
   \<and> 6 < length series_b
   \<and> fgt (fsub (series_b ! 6) ([Fin 1, Fin 2, Fin 3, Fin 4, Fin 5, Fin 6, Fin 7] ! 6)) (Fin 0)
   \<and> r_weights (state_b 1) ! 6 = Fin 1"
proof -
  note it = exB_iter0[OF d_eigs_b]
  have t: "tempNDVI_arr (state_b 1) = Some [Fin 1, Fin 2, Fin 3, Fin 4, Fin 5, Fin 6, Fin 7]"
    by simp
  have i: "6 < length series_b" "6 < length [Fin 1, Fin 2, Fin 3, Fin 4, Fin 5, Fin 6, Fin 7 :: float64]"
    by simp_all
  have r: "fgt (fsub (series_b ! 6) ([Fin 1, Fin 2, Fin 3, Fin 4, Fin 5, Fin 6, Fin 7] ! 6)) (Fin 0)"
    by (simp add: fgt_def fsub_def)
  from positive_residual_weight_one[OF it t i r]
  show ?thesis
    using it r by simp
qed

subsection \<open>C9: the envelope loop and the last call\<close>



subsection \<open>C10: the two variants\<close>



end
